theory Spec2Isabelle
  imports Complex_Main "HOL-Library.Sublist" "HOL-Library.Multiset" "HOL-Library.Product_Lexorder"
begin

section \<open>Revenue screenshot analyzer (src/revenueAnalyzer.ts)\<close>

text \<open>
  The analysis pipeline of \<^verbatim>\<open>revenueAnalyzer.ts\<close>: the number tokenizer
  (\<^verbatim>\<open>extractNumbers\<close>), the currency detector (\<^verbatim>\<open>detectCurrency\<close>), the revenue scorer
  (\<^verbatim>\<open>findRevenueNumbers\<close>), the breakdown estimator (\<^verbatim>\<open>calculateGrowth\<close>,
  \<^verbatim>\<open>estimateBreakdown\<close>) and the orchestrator (\<^verbatim>\<open>extractTextFromImage\<close>,
  \<^verbatim>\<open>analyzeRevenueScreenshot\<close>).

  \<^item> A JavaScript string is the list of its UTF-16 code units, each written as its number.
  \<^item> A JavaScript number is an IEEE double: \<^verbatim>\<open>NaN\<close>, an infinity, or a rational that the
    format represents. Every arithmetic operation gives the exact result rounded to the nearest
    double, a tie going to the even one, with overflow to an infinity and gradual underflow.
    The two zeros are not told apart.
  \<^item> \<^verbatim>\<open>toUpperCase\<close>, \<^verbatim>\<open>toLowerCase\<close> and \<^verbatim>\<open>toLocaleString\<close> depend on Unicode tables and on
    the locale of the machine; they are fields of a record of host functions that every
    function using them takes as an argument.
  \<^item> The OCR engine is a record of its three calls, each of which resolves or rejects.
\<close>

subsection \<open>Numbers\<close>

datatype number = NaN | Num rat | Infinity | NegInfinity

text \<open>
  The binary exponent of a positive rational, kept between \<open>-1022\<close>, where the subnormal
  numbers begin, and \<open>1024\<close>, where the doubles end: it is searched upwards from \<open>0\<close> for a
  number from \<open>1\<close> on, downwards from \<open>-1\<close> for a smaller one.
\<close>

function expUp :: "rat \<Rightarrow> int \<Rightarrow> int" where
  "expUp a e = (if 1024 \<le> e \<or> a < 2 powi (e + 1) then e else expUp a (e + 1))"
  by pat_completeness auto
termination
  by (relation "measure (\<lambda>(a, e). nat (1024 - e))") auto

function expDown :: "rat \<Rightarrow> int \<Rightarrow> int" where
  "expDown a e = (if e \<le> - 1022 \<or> 2 powi e \<le> a then e else expDown a (e - 1))"
  by pat_completeness auto
termination
  by (relation "measure (\<lambda>(a, e). nat (e + 1022))") auto

declare expUp.simps [simp del] expDown.simps [simp del]

definition exponent :: "rat \<Rightarrow> int" where
  "exponent a = (if 1 \<le> a then expUp a 0 else expDown a (- 1))"

definition roundHalfEven :: "rat \<Rightarrow> int" where
  "roundHalfEven x =
     (let f = \<lfloor>x\<rfloor>; d = x - of_int f
      in if d < 1 / 2 then f else if 1 / 2 < d then f + 1 else if even f then f else f + 1)"

text \<open>
  The double nearest to a rational: a multiple of the unit in the last of the 53 places that
  the exponent leaves, an infinity from \<open>2\<^sup>1\<^sup>0\<^sup>2\<^sup>4\<close> on.
\<close>

definition rnd :: "rat \<Rightarrow> number" where
  "rnd x =
     (if x = 0 then Num 0
      else (let ulp = 2 powi (exponent \<bar>x\<bar> - 52);
                y = of_int (roundHalfEven (x / ulp)) * ulp
            in if 2 powi 1024 \<le> y then Infinity
               else if y \<le> - (2 powi 1024) then NegInfinity
               else Num y))"

text \<open>Every finite double is a multiple of \<open>2\<^sup>-\<^sup>1\<^sup>0\<^sup>7\<^sup>4\<close>.\<close>

definition onGrid :: "rat \<Rightarrow> bool" where
  "onGrid x = (of_int \<lfloor>x * 2 powi 1074\<rfloor> = x * 2 powi 1074)"

fun fneg :: "number \<Rightarrow> number" where
  "fneg (Num x) = Num (- x)"
| "fneg Infinity = NegInfinity"
| "fneg NegInfinity = Infinity"
| "fneg NaN = NaN"

text \<open>\<^verbatim>\<open>a + b\<close>, \<^verbatim>\<open>a - b\<close>, \<^verbatim>\<open>a * b\<close> and \<^verbatim>\<open>a / b\<close>.\<close>

fun fadd :: "number \<Rightarrow> number \<Rightarrow> number" where
  "fadd (Num x) (Num y) = rnd (x + y)"
| "fadd NaN b = NaN"
| "fadd a NaN = NaN"
| "fadd Infinity NegInfinity = NaN"
| "fadd NegInfinity Infinity = NaN"
| "fadd Infinity b = Infinity"
| "fadd a Infinity = Infinity"
| "fadd NegInfinity b = NegInfinity"
| "fadd a NegInfinity = NegInfinity"

definition fsub :: "number \<Rightarrow> number \<Rightarrow> number" where
  "fsub a b = fadd a (fneg b)"

fun fmul :: "number \<Rightarrow> number \<Rightarrow> number" where
  "fmul (Num x) (Num y) = rnd (x * y)"
| "fmul NaN b = NaN"
| "fmul a NaN = NaN"
| "fmul (Num x) b = (if x = 0 then NaN else if 0 < x then b else fneg b)"
| "fmul a (Num y) = (if y = 0 then NaN else if 0 < y then a else fneg a)"
| "fmul Infinity b = b"
| "fmul NegInfinity b = fneg b"

fun fdiv :: "number \<Rightarrow> number \<Rightarrow> number" where
  "fdiv (Num x) (Num y) =
     (if y = 0 then (if x = 0 then NaN else if 0 < x then Infinity else NegInfinity)
      else rnd (x / y))"
| "fdiv NaN b = NaN"
| "fdiv a NaN = NaN"
| "fdiv (Num x) b = Num 0"
| "fdiv a (Num y) = (if 0 \<le> y then a else fneg a)"
| "fdiv a b = NaN"

text \<open>\<^verbatim>\<open>a < b\<close>: false as soon as one side is \<^verbatim>\<open>NaN\<close>.\<close>

fun jsLess :: "number \<Rightarrow> number \<Rightarrow> bool" where
  "jsLess (Num x) (Num y) = (x < y)"
| "jsLess NaN b = False"
| "jsLess a NaN = False"
| "jsLess a NegInfinity = False"
| "jsLess NegInfinity b = True"
| "jsLess Infinity b = False"
| "jsLess a Infinity = True"

definition jsLessEq :: "number \<Rightarrow> number \<Rightarrow> bool" where
  "jsLessEq a b = (jsLess a b \<or> (a = b \<and> a \<noteq> NaN))"

text \<open>\<^verbatim>\<open>isNaN\<close>, \<^verbatim>\<open>Math.round\<close> (the nearest integer, a half going up) and \<^verbatim>\<open>Math.min\<close>.\<close>

fun isNaN :: "number \<Rightarrow> bool" where
  "isNaN NaN = True"
| "isNaN n = False"

fun Math_round :: "number \<Rightarrow> number" where
  "Math_round (Num x) = Num (of_int \<lfloor>x + 1 / 2\<rfloor>)"
| "Math_round n = n"

definition Math_min :: "number \<Rightarrow> number \<Rightarrow> number" where
  "Math_min a b = (if isNaN a \<or> isNaN b then NaN else if jsLess b a then b else a)"

definition Math_max :: "number \<Rightarrow> number \<Rightarrow> number" where
  "Math_max a b = (if isNaN a \<or> isNaN b then NaN else if jsLess a b then b else a)"

subsection \<open>Strings\<close>

type_synonym jsstring = "nat list"

definition js :: "string \<Rightarrow> jsstring" where
  "js s = map of_char s"

fun startsWith :: "'a list \<Rightarrow> 'a list \<Rightarrow> bool" where
  "startsWith xs [] = True"
| "startsWith [] (p # ps) = False"
| "startsWith (x # xs) (p # ps) = (x = p \<and> startsWith xs ps)"

text \<open>\<^verbatim>\<open>s.indexOf(p)\<close>: the least position at which \<open>p\<close> occurs in \<open>s\<close>, or \<open>-1\<close>.\<close>

fun indexOf :: "'a list \<Rightarrow> 'a list \<Rightarrow> int" where
  "indexOf [] p = (if p = [] then 0 else - 1)"
| "indexOf (x # xs) p =
     (if startsWith (x # xs) p then 0
      else (let i = indexOf xs p in if i = - 1 then - 1 else i + 1))"

text \<open>\<^verbatim>\<open>s.includes(p)\<close>.\<close>

definition includesStr :: "'a list \<Rightarrow> 'a list \<Rightarrow> bool" where
  "includesStr s p = (indexOf s p \<noteq> - 1)"

text \<open>\<^verbatim>\<open>s.slice(start, end)\<close>, negative arguments counting from the end as in JavaScript.\<close>

definition slice :: "'a list \<Rightarrow> int \<Rightarrow> int \<Rightarrow> 'a list" where
  "slice s start fin =
     (let len = int (length s);
          k = (if start < 0 then max (len + start) 0 else min start len);
          final = (if fin < 0 then max (len + fin) 0 else min fin len)
      in take (nat (final - k)) (drop (nat k) s))"

subsection \<open>STEP 2: the number tokenizer\<close>

definition isDigit :: "nat \<Rightarrow> bool" where
  "isDigit c = (48 \<le> c \<and> c \<le> 57)"

text \<open>
  The pattern is \<^verbatim>\<open>/\d{1,3}(,\d{3})*(\.\d+)?|\d+\.\d+|\d+/g\<close>. Its alternatives are tried in
  order and its quantifiers are greedy. At a digit the first alternative always succeeds, with
  its greediest choice, since whatever follows each of its three parts may match the empty
  string; the second and third alternatives are never reached.
\<close>

text \<open>\<^verbatim>\<open>\d{1,3}\<close>: the leading digits, three at most.\<close>

definition leadDigits :: "jsstring \<Rightarrow> jsstring" where
  "leadDigits s = takeWhile isDigit (take 3 s)"

text \<open>\<^verbatim>\<open>(,\d{3})*\<close>: as many groups of a comma and three digits as follow.\<close>

fun commaGroups :: "jsstring \<Rightarrow> jsstring" where
  "commaGroups (c # d1 # d2 # d3 # rest) =
     (if c = 44 \<and> isDigit d1 \<and> isDigit d2 \<and> isDigit d3
      then c # d1 # d2 # d3 # commaGroups rest else [])"
| "commaGroups s = []"

text \<open>\<^verbatim>\<open>(\.\d+)?\<close>: a point and all the digits after it, when there is at least one.\<close>

fun fraction :: "jsstring \<Rightarrow> jsstring" where
  "fraction (c # d # rest) =
     (if c = 46 \<and> isDigit d then c # takeWhile isDigit (d # rest) else [])"
| "fraction s = []"

text \<open>The match of the pattern at the head of \<open>s\<close>, which starts with a digit.\<close>

definition matchAt :: "jsstring \<Rightarrow> jsstring" where
  "matchAt s =
     (let a = leadDigits s; r1 = drop (length a) s;
          b = commaGroups r1; r2 = drop (length b) r1
      in a @ b @ fraction r2)"

text \<open>
  \<^verbatim>\<open>text.match(numberPattern)\<close> with the \<^verbatim>\<open>g\<close> flag: all matches from left to right, each
  search starting where the previous match ended.
\<close>

function matchAll :: "jsstring \<Rightarrow> jsstring list" where
  "matchAll [] = []"
| "matchAll (c # cs) =
     (if isDigit c
      then matchAt (c # cs) # matchAll (drop (length (matchAt (c # cs))) (c # cs))
      else matchAll cs)"
  by pat_completeness auto
termination
proof (relation "measure length")
  show "wf (measure length)" by simp
next
  fix c :: nat and cs :: jsstring
  assume "isDigit c"
  then have "matchAt (c # cs) \<noteq> []"
    by (simp add: matchAt_def leadDigits_def Let_def)
  then have "0 < length (matchAt (c # cs))" by simp
  then show "(drop (length (matchAt (c # cs))) (c # cs), c # cs) \<in> measure length"
    by simp
next
  fix c :: nat and cs :: jsstring
  show "(cs, c # cs) \<in> measure length" by simp
qed

text \<open>\<^verbatim>\<open>match.replace(/,/g, '')\<close>.\<close>

definition removeCommas :: "jsstring \<Rightarrow> jsstring" where
  "removeCommas s = filter (\<lambda>c. c \<noteq> 44) s"

text \<open>The number written by a string of digits.\<close>

definition decimal :: "jsstring \<Rightarrow> nat" where
  "decimal ds = foldl (\<lambda>acc c. 10 * acc + (c - 48)) 0 ds"

text \<open>
  \<^verbatim>\<open>parseFloat\<close> reads the longest prefix that is a decimal literal and gives the double
  nearest to it. The model reads digits, then a point and digits: the shape of every string
  the tokenizer passes (lemmas \<open>cleaned_token_shape\<close> and \<open>parseFloat_decimal\<close>). It answers
  \<^verbatim>\<open>NaN\<close> for a string that does not start with a digit, which is where it leaves JavaScript
  (signs, leading blanks, a leading point, \<^verbatim>\<open>Infinity\<close>); no such string reaches it. An
  exponent cannot occur either.
\<close>

definition parseFloat :: "jsstring \<Rightarrow> number" where
  "parseFloat s =
     (let ip = takeWhile isDigit s; r = dropWhile isDigit s
      in if ip = [] then NaN
         else (case r of
                 c # r' \<Rightarrow>
                   if c = 46
                   then (let fp = takeWhile isDigit r'
                         in rnd (of_nat (decimal ip) + of_nat (decimal fp) / 10 ^ length fp))
                   else rnd (of_nat (decimal ip))
               | [] \<Rightarrow> rnd (of_nat (decimal ip))))"

text \<open>
  \<^verbatim>\<open>matches.map(m => parseFloat(m.replace(/,/g, ''))).filter(n => !isNaN(n)).filter(n => n > 0)\<close>;
  no match at all gives the empty list.
\<close>

definition extractNumbers :: "jsstring \<Rightarrow> number list" where
  "extractNumbers text =
     filter (\<lambda>num. jsLess (Num 0) num)
       (filter (\<lambda>num. \<not> isNaN num)
          (map (\<lambda>m. parseFloat (removeCommas m)) (matchAll text)))"

subsection \<open>The host functions\<close>

record host =
  toUpperCase :: "jsstring \<Rightarrow> jsstring"
  toLowerCase :: "jsstring \<Rightarrow> jsstring"
  toLocaleString :: "number \<Rightarrow> jsstring"

text \<open>
  What the examples of the claim need of \<^verbatim>\<open>toUpperCase\<close>, and what it does: a stretch of ASCII
  characters without lower-case letters stays as it is, whatever stands around it.
\<close>

definition keepsUpperAscii :: "(jsstring \<Rightarrow> jsstring) \<Rightarrow> bool" where
  "keepsUpperAscii f \<longleftrightarrow>
     f [] = [] \<and>
     (\<forall>pre s post. s \<noteq> [] \<and> (\<forall>c\<in>set s. c < 128 \<and> \<not> (97 \<le> c \<and> c \<le> 122)) \<longrightarrow>
        f (pre @ s @ post) = f pre @ s @ f post)"

subsection \<open>STEP 3: the currency detector\<close>

text \<open>
  The object \<^verbatim>\<open>currencyMap\<close> as the source file has it. No key is an array index, so
  \<^verbatim>\<open>Object.entries\<close> lists the entries in the order in which they are written. Four keys are
  not ASCII; they are given by the code units that stand in the file.
\<close>

definition currencyMap :: "(jsstring \<times> jsstring) list" where
  "currencyMap =
     [(js ''AED'', js ''AED''),
      (js ''Dh'', js ''AED''),
      ([255, 216, 255, 177, 376, 225, 376, 214], js ''AED''),
      (js ''$'', js ''USD''),
      (js ''USD'', js ''USD''),
      ([8218, 199, 168], js ''EUR''),
      (js ''EUR'', js ''EUR''),
      ([172, 163], js ''GBP''),
      (js ''GBP'', js ''GBP''),
      ([8218, 199, 960], js ''INR''),
      (js ''INR'', js ''INR''),
      (js ''Rs'', js ''INR'')]"

text \<open>
  The \<^verbatim>\<open>for\<close> loop over the entries, which returns at the first pattern found; \<open>None\<close> when
  it runs to its end.
\<close>

fun scanEntries :: "host \<Rightarrow> jsstring \<Rightarrow> (jsstring \<times> jsstring) list \<Rightarrow> jsstring option" where
  "scanEntries h upperText [] = None"
| "scanEntries h upperText ((pattern, code) # rest) =
     (if includesStr upperText (toUpperCase h pattern) then Some code
      else scanEntries h upperText rest)"

definition detectCurrency :: "host \<Rightarrow> jsstring \<Rightarrow> jsstring" where
  "detectCurrency h text =
     (let upperText = toUpperCase h text
      in case scanEntries h upperText currencyMap of
           Some code \<Rightarrow> code
         | None \<Rightarrow> js ''AED'')"

subsection \<open>STEP 4: the revenue scorer\<close>

text \<open>The objects \<^verbatim>\<open>{value, confidence}\<close> (\<open>value\<close> is a reserved word here).\<close>

record ScoredNumber =
  num_value :: number
  num_confidence :: number

definition revenueKeywords :: "jsstring list" where
  "revenueKeywords =
     [js ''revenue'', js ''sales'', js ''total'', js ''income'', js ''earnings'',
      js ''gross'', js ''net'', js ''received'', js ''collected'', js ''turnover'']"

text \<open>
  \<^verbatim>\<open>text.slice(Math.max(0, numIndex - 100), Math.min(text.length, numIndex + 100)).toLowerCase()\<close>
\<close>

definition contextAt :: "host \<Rightarrow> jsstring \<Rightarrow> int \<Rightarrow> jsstring" where
  "contextAt h text numIndex =
     (let contextStart = max 0 (numIndex - 100);
          contextEnd = min (int (length text)) (numIndex + 100)
      in toLowerCase h (slice text contextStart contextEnd))"

text \<open>
  The loop over the keywords, from the confidence \<open>conf\<close>; \<open>rnd (2 / 10)\<close> is the double that
  the literal \<^verbatim>\<open>0.2\<close> denotes.
\<close>

definition boost :: "jsstring \<Rightarrow> number \<Rightarrow> number" where
  "boost context conf =
     foldl (\<lambda>confidence keyword.
              if includesStr context keyword then fadd confidence (rnd (2 / 10)) else confidence)
       conf revenueKeywords"

text \<open>The function that \<^verbatim>\<open>findRevenueNumbers\<close> maps over the numbers.\<close>

definition scoreNumber :: "host \<Rightarrow> jsstring \<Rightarrow> number \<Rightarrow> ScoredNumber" where
  "scoreNumber h text num =
     (let numStr = toLocaleString h num;
          numIndex = indexOf text numStr;
          confidence = (if numIndex \<noteq> - 1 then boost (contextAt h text numIndex) (rnd (3 / 10))
                        else rnd (3 / 10))
      in \<lparr>num_value = num, num_confidence = Math_min confidence (Num 1)\<rparr>)"

text \<open>
  \<^verbatim>\<open>Array.prototype.sort\<close> with a comparison function \<open>cmp\<close>: \<open>b\<close> is put before \<open>a\<close> when
  \<open>cmp a b > 0\<close>, a result \<^verbatim>\<open>NaN\<close> counting as \<open>0\<close>, and the sort is stable. For a comparison
  function that is consistent, as both of the source are on the numbers they meet, that fixes
  the result, which insertion from the right computes.
\<close>

fun insertWith :: "('a \<Rightarrow> 'a \<Rightarrow> number) \<Rightarrow> 'a \<Rightarrow> 'a list \<Rightarrow> 'a list" where
  "insertWith cmp x [] = [x]"
| "insertWith cmp x (y # ys) =
     (if jsLess (Num 0) (cmp x y) then y # insertWith cmp x ys else x # y # ys)"

fun sortWith :: "('a \<Rightarrow> 'a \<Rightarrow> number) \<Rightarrow> 'a list \<Rightarrow> 'a list" where
  "sortWith cmp [] = []"
| "sortWith cmp (x # xs) = insertWith cmp x (sortWith cmp xs)"

definition findRevenueNumbers :: "host \<Rightarrow> jsstring \<Rightarrow> number list \<Rightarrow> ScoredNumber list" where
  "findRevenueNumbers h text numbers =
     sortWith (\<lambda>a b. fsub (num_confidence b) (num_confidence a))
       (map (scoreNumber h text) numbers)"

subsection \<open>STEP 5 and STEP 6: growth and the breakdown estimator\<close>

definition calculateGrowth :: "number \<Rightarrow> number \<Rightarrow> number" where
  "calculateGrowth current previous =
     (if previous = Num 0 then Num 0
      else fmul (fdiv (fsub current previous) previous) (Num 100))"

record Breakdown =
  thisMonth :: number
  lastMonth :: number
  growth :: number

text \<open>
  \<^verbatim>\<open>sortedNumbers[2] || (thisMonth * 0.85)\<close> takes the right-hand side when there is no third
  element and also when the third element is \<open>0\<close> or \<^verbatim>\<open>NaN\<close>.
\<close>

definition estimateBreakdown :: "number list \<Rightarrow> Breakdown" where
  "estimateBreakdown numbers =
     (if length numbers = 0 then \<lparr>thisMonth = Num 0, lastMonth = Num 0, growth = Num 0\<rparr>
      else if length numbers = 1 then
        (let total = numbers ! 0;
             estimatedMonthly = fdiv total (Num 12)
         in \<lparr>thisMonth = Math_round estimatedMonthly,
             lastMonth = Math_round (fmul estimatedMonthly (rnd (8 / 10))),
             growth = Num 20\<rparr>)
      else
        (let sortedNumbers = sortWith (\<lambda>a b. fsub b a) numbers;
             thisMonth = sortedNumbers ! 1;
             lastMonth = (if 2 < length sortedNumbers \<and> sortedNumbers ! 2 \<noteq> Num 0
                             \<and> \<not> isNaN (sortedNumbers ! 2)
                          then sortedNumbers ! 2 else fmul thisMonth (rnd (85 / 100)))
         in \<lparr>thisMonth = Math_round thisMonth,
             lastMonth = Math_round lastMonth,
             growth = Math_round (calculateGrowth thisMonth lastMonth)\<rparr>))"

subsection \<open>STEP 1: text extraction\<close>

text \<open>
  The three calls \<^verbatim>\<open>extractTextFromImage\<close> makes to Tesseract: \<^verbatim>\<open>createWorker\<close>,
  \<^verbatim>\<open>worker.recognize\<close> and \<^verbatim>\<open>worker.terminate\<close>. Each promise resolves (\<open>Inr\<close>) or rejects
  (\<open>Inl\<close>) with whatever the engine throws. The progress logger and the console output are
  left out.
\<close>

record ('img, 'worker, 'e) engine =
  createWorker :: "'e + 'worker"
  recognize :: "'worker \<Rightarrow> 'img \<Rightarrow> 'e + jsstring"
  terminate :: "'worker \<Rightarrow> 'e + unit"

datatype call = CreateWorker | Recognize | Terminate

datatype error = Error jsstring

text \<open>
  The result, and the engine calls made in their order. Whatever is thrown inside the
  \<^verbatim>\<open>try\<close> block is caught and replaced by one \<^verbatim>\<open>Error\<close>.
\<close>

definition extractTextFromImage ::
  "('img, 'worker, 'e) engine \<Rightarrow> 'img \<Rightarrow> (error + jsstring) \<times> call list" where
  "extractTextFromImage eng imageFile =
     (let failed = Inl (Error (js ''Failed to extract text from image''))
      in case createWorker eng of
           Inl e \<Rightarrow> (failed, [CreateWorker])
         | Inr worker \<Rightarrow>
             (case recognize eng worker imageFile of
                Inl e \<Rightarrow> (failed, [CreateWorker, Recognize])
              | Inr text \<Rightarrow>
                  (case terminate eng worker of
                     Inl e \<Rightarrow> (failed, [CreateWorker, Recognize, Terminate])
                   | Inr u \<Rightarrow> (Inr text, [CreateWorker, Recognize, Terminate]))))"

subsection \<open>The orchestrator\<close>

text \<open>
  \<^verbatim>\<open>RevenueAnalysis\<close>. Its fields \<^verbatim>\<open>thisMonth\<close>, \<^verbatim>\<open>lastMonth\<close> and \<^verbatim>\<open>growth\<close> are those of the
  breakdown, which the record extends so that the field names are shared.
\<close>

record RevenueAnalysis = Breakdown +
  totalRevenue :: number
  currency :: jsstring
  confidence :: number
  rawText :: jsstring
  detectedNumbers :: "number list"
  analysisMethod :: jsstring

text \<open>
  STEP 5 of the orchestrator. \<^verbatim>\<open>Math.max(...allNumbers)\<close> is called on a list that is not
  empty only.
\<close>

definition pickTotalRevenue :: "ScoredNumber list \<Rightarrow> number list \<Rightarrow> number" where
  "pickTotalRevenue revenueNumbers allNumbers =
     (if length revenueNumbers > 0 then num_value (revenueNumbers ! 0)
      else (case allNumbers of [] \<Rightarrow> Num 0 | x # xs \<Rightarrow> foldl Math_max x xs))"

text \<open>STEP 7 of the orchestrator.\<close>

definition pickConfidence :: "ScoredNumber list \<Rightarrow> number" where
  "pickConfidence revenueNumbers =
     (if length revenueNumbers > 0 then num_confidence (revenueNumbers ! 0) else rnd (3 / 10))"

text \<open>The \<^verbatim>\<open>try\<close> block after the text has been extracted.\<close>

definition analyzeText :: "host \<Rightarrow> jsstring \<Rightarrow> RevenueAnalysis" where
  "analyzeText h extractedText =
     (let allNumbers = extractNumbers extractedText;
          currency = detectCurrency h extractedText;
          revenueNumbers = findRevenueNumbers h extractedText allNumbers;
          totalRevenue = pickTotalRevenue revenueNumbers allNumbers;
          breakdown = estimateBreakdown allNumbers;
          overallConfidence = pickConfidence revenueNumbers
      in \<lparr>thisMonth = thisMonth breakdown,
          lastMonth = lastMonth breakdown,
          growth = growth breakdown,
          totalRevenue = Math_round totalRevenue,
          currency = currency,
          confidence = overallConfidence,
          rawText = extractedText,
          detectedNumbers = allNumbers,
          analysisMethod = js ''ocr''\<rparr>)"

text \<open>The object returned by the \<^verbatim>\<open>catch\<close> block.\<close>

definition mockAnalysis :: RevenueAnalysis where
  "mockAnalysis =
     \<lparr>thisMonth = Num 12450,
      lastMonth = Num 10200,
      growth = Num 22,
      totalRevenue = Num 45680,
      currency = js ''AED'',
      confidence = rnd (1 / 10),
      rawText = js ''OCR failed'',
      detectedNumbers = [],
      analysisMethod = js ''mock''\<rparr>"

text \<open>
  The promise \<^verbatim>\<open>analyzeRevenueScreenshot\<close> returns: \<open>Inr\<close> when it resolves, \<open>Inl\<close> when it
  rejects; with it, the engine calls made.
\<close>

definition analyzeRevenueScreenshot ::
  "('img, 'worker, 'e) engine \<Rightarrow> host \<Rightarrow> 'img \<Rightarrow> (error + RevenueAnalysis) \<times> call list" where
  "analyzeRevenueScreenshot eng h imageFile =
     (case extractTextFromImage eng imageFile of
        (Inr extractedText, calls) \<Rightarrow> (Inr (analyzeText h extractedText), calls)
      | (Inl err, calls) \<Rightarrow> (Inr mockAnalysis, calls))"

subsection \<open>A host for the examples\<close>

text \<open>
  The case mappings on ASCII letters, which is what \<^verbatim>\<open>toUpperCase\<close> and \<^verbatim>\<open>toLowerCase\<close> do
  on a string of ASCII characters, and the \<^verbatim>\<open>en-US\<close> format of \<^verbatim>\<open>toLocaleString\<close>: groups of
  three digits set off by commas, at most three fraction digits, a half rounded away from
  zero, without trailing zeros.
\<close>

definition upperUnit :: "nat \<Rightarrow> nat" where
  "upperUnit c = (if 97 \<le> c \<and> c \<le> 122 then c - 32 else c)"

definition lowerUnit :: "nat \<Rightarrow> nat" where
  "lowerUnit c = (if 65 \<le> c \<and> c \<le> 90 then c + 32 else c)"

fun digitsOf :: "nat \<Rightarrow> jsstring" where
  "digitsOf n = (if n < 10 then [48 + n] else digitsOf (n div 10) @ [48 + n mod 10])"

fun group3 :: "jsstring \<Rightarrow> jsstring" where
  "group3 (a # b # c # d # rest) = a # b # c # 44 # group3 (d # rest)"
| "group3 s = s"

definition enUS :: "number \<Rightarrow> jsstring" where
  "enUS n =
     (case n of
        NaN \<Rightarrow> js ''NaN''
      | Infinity \<Rightarrow> [8734]
      | NegInfinity \<Rightarrow> [45, 8734]
      | Num x \<Rightarrow>
          (let m = nat \<lfloor>\<bar>x\<bar> * 1000 + 1 / 2\<rfloor>;
               fp = m mod 1000;
               fracDigits = rev (dropWhile (\<lambda>c. c = 48)
                              (rev [48 + fp div 100, 48 + (fp div 10) mod 10, 48 + fp mod 10]));
               body = rev (group3 (rev (digitsOf (m div 1000))))
                      @ (if fracDigits = [] then [] else 46 # fracDigits)
           in if x < 0 then 45 # body else body))"

definition asciiHost :: host where
  "asciiHost = \<lparr>toUpperCase = map upperUnit, toLowerCase = map lowerUnit, toLocaleString = enUS\<rparr>"

subsection \<open>Engines for the examples\<close>

text \<open>
  An engine whose \<^verbatim>\<open>recognize\<close> rejects, and an engine that reads the text \<open>t\<close> off every
  image. Images are numbered.
\<close>

definition brokenEngine :: "(nat, unit, string) engine" where
  "brokenEngine =
     \<lparr>createWorker = Inr (),
      recognize = (\<lambda>worker imageFile. Inl ''corrupt image''),
      terminate = (\<lambda>worker. Inr ())\<rparr>"

definition textEngine :: "jsstring \<Rightarrow> (nat, unit, string) engine" where
  "textEngine t =
     \<lparr>createWorker = Inr (),
      recognize = (\<lambda>worker imageFile. Inr t),
      terminate = (\<lambda>worker. Inr ())\<rparr>"

subsection \<open>Notions used in the properties\<close>

text \<open>
  A number that can be compared: a double or an infinity, not \<^verbatim>\<open>NaN\<close>; and a number that the
  tokenizer can return: one of these that is greater than \<open>0\<close>.
\<close>

fun comparable :: "number \<Rightarrow> bool" where
  "comparable (Num x) = onGrid x"
| "comparable NaN = False"
| "comparable n = True"

definition positiveDouble :: "number \<Rightarrow> bool" where
  "positiveDouble n = (comparable n \<and> jsLess (Num 0) n)"

text \<open>The place of a number in the order of the extended rationals, and its mirror image.\<close>

fun rank :: "number \<Rightarrow> int \<times> rat" where
  "rank NegInfinity = (- 1, 0)"
| "rank (Num x) = (0, x)"
| "rank Infinity = (1, 0)"
| "rank NaN = (2, 0)"

definition descending :: "number \<Rightarrow> int \<times> rat" where
  "descending n = (- fst (rank n), - snd (rank n))"

text \<open>The confidence after \<open>k\<close> keywords, before and after it is capped.\<close>

definition boosted :: "nat \<Rightarrow> number" where
  "boosted k = ((\<lambda>confidence. fadd confidence (rnd (2 / 10))) ^^ k) (rnd (3 / 10))"

definition capped :: "nat \<Rightarrow> number" where
  "capped k = Math_min (boosted k) (Num 1)"

section \<open>Properties\<close>

subsection \<open>Rounding to the nearest double\<close>

lemma floor_rat_numeral:
  "\<lfloor>numeral a / numeral b :: rat\<rfloor> = numeral a div numeral b"
  "\<lfloor>1 / numeral b :: rat\<rfloor> = 1 div numeral b"
  "\<lfloor>- (numeral a / numeral b) :: rat\<rfloor> = - numeral a div numeral b"
  using floor_divide_of_int_eq [of "numeral a" "numeral b", where ?'a = rat]
    floor_divide_of_int_eq [of 1 "numeral b", where ?'a = rat]
    floor_divide_of_int_eq [of "- numeral a" "numeral b", where ?'a = rat]
  by simp_all

lemma pow2_pos [simp]: "0 < (2::rat) powi k"
  by (simp add: zero_less_power_int)

lemma pow2_mono: "m \<le> n \<Longrightarrow> (2::rat) powi m \<le> 2 powi n"
  by (simp add: power_int_increasing)

lemma pow2_Suc: "(2::rat) powi (k + 1) = 2 * 2 powi k"
  by (simp add: power_int_add)

lemma pow2_split: "(2::rat) powi (m + n) = 2 powi m * 2 powi n"
  by (simp add: power_int_add)

lemma expUp_spec:
  "e \<le> 1024 \<Longrightarrow> 2 powi e \<le> a \<Longrightarrow>
     e \<le> expUp a e \<and> expUp a e \<le> 1024 \<and> 2 powi (expUp a e) \<le> a
     \<and> (expUp a e < 1024 \<longrightarrow> a < 2 powi (expUp a e + 1))"
proof (induction a e rule: expUp.induct)
  case (1 a e)
  show ?case
  proof (cases "1024 \<le> e \<or> a < 2 powi (e + 1)")
    case True
    with "1.prems" show ?thesis by (subst (1 2 3 4 5) expUp.simps) auto
  next
    case False
    then have "e + 1 \<le> 1024" and "2 powi (e + 1) \<le> a" by simp_all
    with "1.IH" [OF False] have ih: "e + 1 \<le> expUp a (e + 1) \<and> expUp a (e + 1) \<le> 1024
        \<and> 2 powi (expUp a (e + 1)) \<le> a
        \<and> (expUp a (e + 1) < 1024 \<longrightarrow> a < 2 powi (expUp a (e + 1) + 1))"
      by blast
    have "expUp a e = expUp a (e + 1)"
      using False by (subst expUp.simps) simp
    with ih show ?thesis by simp
  qed
qed

lemma expDown_spec:
  "- 1022 \<le> e \<Longrightarrow> a < 2 powi (e + 1) \<Longrightarrow>
     - 1022 \<le> expDown a e \<and> expDown a e \<le> e \<and> a < 2 powi (expDown a e + 1)
     \<and> (- 1022 < expDown a e \<longrightarrow> 2 powi (expDown a e) \<le> a)"
proof (induction a e rule: expDown.induct)
  case (1 a e)
  show ?case
  proof (cases "e \<le> - 1022 \<or> 2 powi e \<le> a")
    case True
    with "1.prems" show ?thesis by (subst (1 2 3 4 5) expDown.simps) auto
  next
    case False
    then have "- 1022 \<le> e - 1" and "a < 2 powi (e - 1 + 1)" by simp_all
    with "1.IH" [OF False] have ih: "- 1022 \<le> expDown a (e - 1) \<and> expDown a (e - 1) \<le> e - 1
        \<and> a < 2 powi (expDown a (e - 1) + 1)
        \<and> (- 1022 < expDown a (e - 1) \<longrightarrow> 2 powi (expDown a (e - 1)) \<le> a)"
      by blast
    have "expDown a e = expDown a (e - 1)"
      using False by (subst expDown.simps) simp
    with ih show ?thesis by simp
  qed
qed

lemma exponent_spec:
  "- 1022 \<le> exponent a \<and> exponent a \<le> 1024
   \<and> (- 1022 < exponent a \<longrightarrow> 2 powi (exponent a) \<le> a)
   \<and> (exponent a < 1024 \<longrightarrow> a < 2 powi (exponent a + 1))"
proof (cases "1 \<le> a")
  case True
  with expUp_spec [of 0 a] show ?thesis by (simp add: exponent_def)
next
  case False
  with expDown_spec [of "- 1" a] show ?thesis by (simp add: exponent_def)
qed

lemma exponent_unique:
  assumes "- 1022 \<le> e" "e \<le> 1023" "2 powi e \<le> a" "a < 2 powi (e + 1)"
  shows "exponent a = e"
proof (rule ccontr)
  assume ne: "exponent a \<noteq> e"
  note sp = exponent_spec [of a]
  show False
  proof (cases "exponent a < e")
    case True
    with assms(2) sp have "a < 2 powi (exponent a + 1)" by simp
    also from True have "\<dots> \<le> 2 powi e" by (intro pow2_mono) simp
    finally show False using assms(3) by simp
  next
    case False
    with ne have gt: "e + 1 \<le> exponent a" by simp
    with assms(1) sp have "2 powi (exponent a) \<le> a" by simp
    moreover from gt have "(2::rat) powi (e + 1) \<le> 2 powi (exponent a)" by (rule pow2_mono)
    ultimately show False using assms(4) by simp
  qed
qed

lemma exponent_subnormal: "a < 2 powi (- 1022) \<Longrightarrow> exponent a = - 1022"
proof (rule ccontr)
  assume a: "a < 2 powi (- 1022)" and "exponent a \<noteq> - 1022"
  with exponent_spec [of a] have gt: "- 1022 \<le> exponent a" and "2 powi (exponent a) \<le> a"
    by simp_all
  moreover from gt have "(2::rat) powi (- 1022) \<le> 2 powi (exponent a)" by (rule pow2_mono)
  ultimately show False using a by simp
qed

lemma exponent_overflow: "2 powi 1024 \<le> a \<Longrightarrow> exponent a = 1024"
proof (rule ccontr)
  assume a: "2 powi 1024 \<le> a" and "exponent a \<noteq> 1024"
  with exponent_spec [of a] have lt: "exponent a + 1 \<le> 1024" and "a < 2 powi (exponent a + 1)"
    by simp_all
  moreover from lt have "(2::rat) powi (exponent a + 1) \<le> 2 powi 1024" by (rule pow2_mono)
  ultimately show False using a by simp
qed

lemma roundHalfEven_near: "\<bar>of_int (roundHalfEven q) - q\<bar> \<le> 1 / 2"
proof -
  have "of_int \<lfloor>q\<rfloor> \<le> q" and "q < of_int \<lfloor>q\<rfloor> + 1" by linarith+
  then show ?thesis
    by (auto simp: roundHalfEven_def Let_def)
qed

lemma roundHalfEven_ge1: "1 \<le> q \<Longrightarrow> 1 \<le> roundHalfEven q"
proof -
  assume "1 \<le> q"
  with roundHalfEven_near [of q] have "(1::rat) / 2 \<le> of_int (roundHalfEven q)" by linarith
  then have "(0::rat) < of_int (roundHalfEven q)" by linarith
  then show ?thesis by simp
qed

lemma roundHalfEven_nonneg: "0 \<le> q \<Longrightarrow> 0 \<le> roundHalfEven q"
proof -
  assume "0 \<le> q"
  with roundHalfEven_near [of q] have "- (1::rat) / 2 \<le> of_int (roundHalfEven q)" by linarith
  then have "(- 1::rat) < of_int (roundHalfEven q)" by linarith
  then have "- 1 < roundHalfEven q" by (metis of_int_less_iff of_int_minus of_int_1)
  then show ?thesis by simp
qed

lemma roundHalfEven_of_int [simp]: "roundHalfEven (of_int n) = n"
  by (simp add: roundHalfEven_def)

lemma roundHalfEven_minus: "roundHalfEven (- q) = - roundHalfEven q"
proof (cases "q \<in> \<int>")
  case True
  then obtain n where "q = of_int n" by (auto elim: Ints_cases)
  then show ?thesis by (simp flip: of_int_minus)
next
  case False
  have "of_int \<lfloor>q\<rfloor> \<in> (\<int> :: rat set)" by simp
  with False have ne: "of_int \<lfloor>q\<rfloor> \<noteq> q" by metis
  have "of_int \<lfloor>q\<rfloor> \<le> q" by simp
  with ne have lo: "of_int \<lfloor>q\<rfloor> < q" by linarith
  have hi: "q < of_int \<lfloor>q\<rfloor> + 1" by linarith
  from lo hi have "of_int (- \<lfloor>q\<rfloor> - 1) \<le> - q" and "- q < of_int (- \<lfloor>q\<rfloor> - 1) + 1"
    by simp_all
  then have fl: "\<lfloor>- q\<rfloor> = - \<lfloor>q\<rfloor> - 1" by (rule floor_unique)
  from lo hi show ?thesis
    unfolding roundHalfEven_def Let_def fl by (auto simp: algebra_simps)
qed


lemma pow2_cancel: "(2::rat) powi (- k) * 2 powi k = 1"
  by (simp add: power_int_minus)

lemma onGrid_iff: "onGrid x \<longleftrightarrow> (\<exists>n::int. x = of_int n * 2 powi (- 1074))"
proof
  assume "onGrid x"
  then have "of_int \<lfloor>x * 2 powi 1074\<rfloor> = x * 2 powi 1074"
    unfolding onGrid_def .
  then have "x * 2 powi 1074 = of_int \<lfloor>x * 2 powi 1074\<rfloor>"
    by (rule sym)
  then have "x * 2 powi 1074 * 2 powi (- 1074) = of_int \<lfloor>x * 2 powi 1074\<rfloor> * 2 powi (- 1074)"
    by (simp only:)
  moreover have "x * 2 powi 1074 * 2 powi (- 1074) = x"
    using pow2_cancel [of 1074] by (simp only: mult.assoc mult.commute [of "2 powi 1074"] mult_1_right)
  ultimately show "\<exists>n::int. x = of_int n * 2 powi (- 1074)" by metis
next
  assume "\<exists>n::int. x = of_int n * 2 powi (- 1074)"
  then obtain n :: int where x: "x = of_int n * 2 powi (- 1074)" by blast
  have "x * 2 powi 1074 = of_int n * (2 powi (- 1074) * 2 powi 1074)"
    by (simp only: x mult.assoc)
  also have "\<dots> = of_int n"
    by (simp only: pow2_cancel mult_1_right)
  finally have "x * 2 powi 1074 = of_int n" .
  then show "onGrid x" by (simp only: onGrid_def floor_of_int)
qed

lemma onGrid_diff: "onGrid a \<Longrightarrow> onGrid b \<Longrightarrow> onGrid (b - a)"
proof -
  assume "onGrid a" "onGrid b"
  then obtain m n :: int where "a = of_int m * 2 powi (- 1074)" "b = of_int n * 2 powi (- 1074)"
    unfolding onGrid_iff by blast
  then have "b - a = of_int (n - m) * 2 powi (- 1074)"
    by (simp only: of_int_diff left_diff_distrib)
  then show ?thesis unfolding onGrid_iff by blast
qed

lemma onGrid_pos: "onGrid z \<Longrightarrow> 0 < z \<Longrightarrow> 2 powi (- 1074) \<le> z"
proof -
  assume "onGrid z" "0 < z"
  then obtain n :: int where z: "z = of_int n * 2 powi (- 1074)"
    unfolding onGrid_iff by blast
  have p: "(0::rat) < 2 powi (- 1074)" by (rule pow2_pos)
  from \<open>0 < z\<close> have "0 < (of_int n :: rat)"
    unfolding z using p by (simp only: zero_less_mult_iff) (auto dest: less_asym)
  then have "1 \<le> n" by simp
  then have "(1::rat) \<le> of_int n" by simp
  then have "1 * 2 powi (- 1074) \<le> of_int n * (2::rat) powi (- 1074)"
    using p by (intro mult_right_mono) simp_all
  then show ?thesis by (simp only: z mult_1)
qed

lemma rnd_form:
  assumes "x \<noteq> 0"
  obtains n e where "- 1022 \<le> e" "e \<le> 1024" "e = exponent \<bar>x\<bar>"
    "n = roundHalfEven (x / 2 powi (e - 52))"
    "rnd x = (if 2 powi 1024 \<le> (of_int n * 2 powi (e - 52) :: rat) then Infinity
              else if (of_int n * 2 powi (e - 52) :: rat) \<le> - (2 powi 1024) then NegInfinity
              else Num (of_int n * 2 powi (e - 52)))"
proof -
  have "rnd x = (if 2 powi 1024 \<le> (of_int (roundHalfEven (x / 2 powi (exponent \<bar>x\<bar> - 52)))
                     * 2 powi (exponent \<bar>x\<bar> - 52) :: rat) then Infinity
              else if (of_int (roundHalfEven (x / 2 powi (exponent \<bar>x\<bar> - 52)))
                     * 2 powi (exponent \<bar>x\<bar> - 52) :: rat) \<le> - (2 powi 1024) then NegInfinity
              else Num (of_int (roundHalfEven (x / 2 powi (exponent \<bar>x\<bar> - 52)))
                     * 2 powi (exponent \<bar>x\<bar> - 52)))"
    using assms unfolding rnd_def Let_def by (simp only: if_False)
  with exponent_spec [of "\<bar>x\<bar>"] that show ?thesis by blast
qed

lemma rnd_onGrid: "rnd x = Num y \<Longrightarrow> onGrid y"
proof (cases "x = 0")
  case True
  assume "rnd x = Num y"
  with True have "y = of_int 0 * 2 powi (- 1074)" by (simp add: rnd_def)
  then show ?thesis unfolding onGrid_iff by blast
next
  case False
  assume r: "rnd x = Num y"
  from False obtain n e where e: "- 1022 \<le> e"
    and "rnd x = (if 2 powi 1024 \<le> (of_int n * 2 powi (e - 52) :: rat) then Infinity
              else if (of_int n * 2 powi (e - 52) :: rat) \<le> - (2 powi 1024) then NegInfinity
              else Num (of_int n * 2 powi (e - 52)))"
    by (rule rnd_form)
  with r have y: "y = of_int n * 2 powi (e - 52)"
    by (auto split: if_splits)
  from e have "e - 52 = int (nat (e + 1022)) + (- 1074)" by simp
  then have "(2::rat) powi (e - 52) = 2 powi int (nat (e + 1022)) * 2 powi (- 1074)"
    by (simp only: pow2_split)
  also have "\<dots> = of_int (2 ^ nat (e + 1022)) * 2 powi (- 1074)"
    by (simp only: power_int_of_nat of_int_power of_int_numeral)
  finally have "y = of_int (n * 2 ^ nat (e + 1022)) * 2 powi (- 1074)"
    by (simp only: y of_int_mult mult.assoc)
  then show ?thesis unfolding onGrid_iff by blast
qed

lemma rnd_minus: "rnd (- x) = fneg (rnd x)"
proof (cases "x = 0")
  case True
  then show ?thesis by (simp add: rnd_def)
next
  case False
  define u :: rat where "u = 2 powi (exponent \<bar>x\<bar> - 52)"
  define y where "y = of_int (roundHalfEven (x / u)) * u"
  define M :: rat where "M = 2 powi 1024"
  have M: "0 < M" unfolding M_def by (rule pow2_pos)
  have r: "rnd x = (if M \<le> y then Infinity else if y \<le> - M then NegInfinity else Num y)"
    using False unfolding rnd_def Let_def y_def u_def M_def by (simp only: if_False)
  have "of_int (roundHalfEven (- x / u)) * u = - y"
    by (simp add: roundHalfEven_minus y_def)
  then have m: "rnd (- x) = (if M \<le> - y then Infinity else if - y \<le> - M then NegInfinity
      else Num (- y))"
    using False unfolding rnd_def Let_def u_def M_def
    by (simp only: abs_minus_cancel neg_equal_0_iff_equal if_False)
  consider "M \<le> y" | "y \<le> - M" | "\<not> M \<le> y" "\<not> y \<le> - M" by blast
  then show ?thesis
  proof cases
    case 1
    with M have "\<not> M \<le> - y" and "- y \<le> - M" by linarith+
    with 1 show ?thesis by (simp add: r m)
  next
    case 2
    with M have "M \<le> - y" and "\<not> M \<le> y" by linarith+
    with 2 show ?thesis by (simp add: r m)
  next
    case 3
    then have "\<not> M \<le> - y" and "\<not> - y \<le> - M" by linarith+
    with 3 show ?thesis by (simp add: r m)
  qed
qed

lemma rnd_ge_ulp:
  assumes "2 powi (- 1074) \<le> x"
  shows "2 powi (exponent x - 52) \<le> x"
proof (cases "exponent x = - 1022")
  case True
  with assms show ?thesis by simp
next
  case False
  with exponent_spec [of x] have "2 powi (exponent x) \<le> x" by simp
  moreover have "(2::rat) powi (exponent x - 52) \<le> 2 powi (exponent x)"
    by (rule pow2_mono) simp
  ultimately show ?thesis by simp
qed

lemma rnd_unfold:
  assumes "x \<noteq> 0"
  shows "rnd x =
     (if 2 powi 1024 \<le> (of_int (roundHalfEven (x / 2 powi (exponent \<bar>x\<bar> - 52)))
                           * 2 powi (exponent \<bar>x\<bar> - 52) :: rat) then Infinity
      else if (of_int (roundHalfEven (x / 2 powi (exponent \<bar>x\<bar> - 52)))
                 * 2 powi (exponent \<bar>x\<bar> - 52) :: rat) \<le> - (2 powi 1024) then NegInfinity
      else Num (of_int (roundHalfEven (x / 2 powi (exponent \<bar>x\<bar> - 52)))
                 * 2 powi (exponent \<bar>x\<bar> - 52)))"
  using assms unfolding rnd_def Let_def by (simp only: if_False)

lemma rnd_positive: "2 powi (- 1074) \<le> x \<Longrightarrow> jsLess (Num 0) (rnd x)"
proof -
  assume a: "2 powi (- 1074) \<le> x"
  have p: "(0::rat) < 2 powi (- 1074)" by (rule pow2_pos)
  with a have pos: "0 < x" by linarith
  then have ax: "\<bar>x\<bar> = x" by simp
  define u :: rat where "u = 2 powi (exponent x - 52)"
  define y where "y = of_int (roundHalfEven (x / u)) * u"
  have u: "0 < u" unfolding u_def by (rule pow2_pos)
  from rnd_ge_ulp [OF a] u have "1 \<le> x / u" by (simp add: le_divide_eq u_def)
  then have "1 \<le> roundHalfEven (x / u)" by (rule roundHalfEven_ge1)
  then have "(0::rat) < of_int (roundHalfEven (x / u))" by simp
  with u have y: "0 < y" unfolding y_def by simp
  have M: "(0::rat) < 2 powi 1024" by (rule pow2_pos)
  from pos have "rnd x = (if 2 powi 1024 \<le> y then Infinity
      else if y \<le> - (2 powi 1024) then NegInfinity else Num y)"
    using rnd_unfold [of x] unfolding ax y_def u_def by blast
  moreover from y M have "\<not> y \<le> - (2 powi 1024)" by linarith
  ultimately show ?thesis using y by (simp del: power_int_numeral)
qed

lemma rnd_nonneg: "0 \<le> x \<Longrightarrow> rnd x = Infinity \<or> (\<exists>y\<ge>0. rnd x = Num y)"
proof (cases "x = 0")
  case True
  then show ?thesis by (simp add: rnd_def)
next
  case False
  assume "0 \<le> x"
  define u :: rat where "u = 2 powi (exponent \<bar>x\<bar> - 52)"
  define y where "y = of_int (roundHalfEven (x / u)) * u"
  have u: "0 < u" unfolding u_def by (rule pow2_pos)
  with \<open>0 \<le> x\<close> have "0 \<le> x / u" by simp
  then have "0 \<le> roundHalfEven (x / u)" by (rule roundHalfEven_nonneg)
  then have "(0::rat) \<le> of_int (roundHalfEven (x / u))" by simp
  with u have y: "0 \<le> y" unfolding y_def by simp
  have M: "(0::rat) < 2 powi 1024" by (rule pow2_pos)
  from False have "rnd x = (if 2 powi 1024 \<le> y then Infinity
      else if y \<le> - (2 powi 1024) then NegInfinity else Num y)"
    using rnd_unfold [of x] unfolding y_def u_def by blast
  moreover from y M have "\<not> y \<le> - (2 powi 1024)" by linarith
  ultimately show ?thesis using y by (simp del: power_int_numeral)
qed

lemma rnd_overflow: "2 powi 1024 \<le> x \<Longrightarrow> rnd x = Infinity"
proof -
  assume a: "2 powi 1024 \<le> x"
  define M :: rat where "M = 2 powi 1024"
  define u :: rat where "u = 2 powi (1024 - 52)"
  define k :: int where "k = 2 ^ 52"
  have M: "0 < M" unfolding M_def by (rule pow2_pos)
  have u: "0 < u" unfolding u_def by (rule pow2_pos)
  from a M have pos: "0 < x" unfolding M_def by linarith
  then have ax: "\<bar>x\<bar> = x" by simp
  from a have e: "exponent x = 1024" by (rule exponent_overflow)
  have "(2::rat) powi 52 = of_int k"
    unfolding k_def by (simp only: power_int_numeral of_int_power of_int_numeral)
  moreover have "(2::rat) powi 1024 = 2 powi (52 + (1024 - 52))"
    by (rule arg_cong [where f = "\<lambda>k. 2 powi k"]) simp
  then have "(2::rat) powi 1024 = 2 powi 52 * 2 powi (1024 - 52)"
    by (simp only: pow2_split)
  ultimately have split: "M = of_int k * u"
    unfolding M_def u_def by (simp only:)
  define n where "n = roundHalfEven (x / u)"
  from a u have "of_int k \<le> x / u"
    unfolding M_def [symmetric] split by (simp add: le_divide_eq)
  moreover have "\<bar>of_int n - x / u\<bar> \<le> 1 / 2"
    unfolding n_def by (rule roundHalfEven_near)
  ultimately have "(of_int k :: rat) - 1 / 2 \<le> of_int n" by linarith
  then have "(of_int (k - 1) :: rat) < of_int n" by simp
  then have "k - 1 < n" by (simp only: of_int_less_iff)
  then have "k \<le> n" by simp
  then have "(of_int k :: rat) \<le> of_int n" by (simp only: of_int_le_iff)
  with u have "of_int k * u \<le> of_int n * u"
    by (intro mult_right_mono) simp_all
  then have "M \<le> of_int n * u" by (simp only: split)
  then show ?thesis
    using rnd_unfold [of x] pos unfolding ax e n_def u_def M_def by (simp only: if_True)
qed

text \<open>In the normal range the relative error of rounding is at most \<open>2\<^sup>-\<^sup>5\<^sup>3\<close>.\<close>

lemma rnd_rel:
  assumes lo: "2 powi (- 1022) \<le> \<bar>x\<bar>" and hi: "\<bar>x\<bar> < 2 powi 1023"
  shows "\<exists>y. rnd x = Num y \<and> \<bar>y - x\<bar> * 2 powi 53 \<le> \<bar>x\<bar>"
proof -
  have "(0::rat) < 2 powi (- 1022)" by (rule pow2_pos)
  with lo have nz: "x \<noteq> 0" by auto
  define e where "e = exponent \<bar>x\<bar>"
  note sp = exponent_spec [of "\<bar>x\<bar>", folded e_def]
  have le: "2 powi e \<le> \<bar>x\<bar>"
  proof (cases "e = - 1022")
    case True
    with lo show ?thesis by simp
  next
    case False
    with sp show ?thesis by simp
  qed
  have e_hi: "e \<le> 1022"
  proof (rule ccontr)
    assume "\<not> e \<le> 1022"
    then have "1023 \<le> e" by simp
    then have "(2::rat) powi 1023 \<le> 2 powi e" by (rule pow2_mono)
    with le hi show False by linarith
  qed
  with sp have lt: "\<bar>x\<bar> < 2 powi (e + 1)" by simp
  define u :: rat where "u = 2 powi (e - 52)"
  have u: "0 < u" unfolding u_def by (rule pow2_pos)
  define n where "n = roundHalfEven (x / u)"
  define y where "y = of_int n * u"
  have "\<bar>of_int n - x / u\<bar> \<le> 1 / 2"
    unfolding n_def by (rule roundHalfEven_near)
  then have "\<bar>of_int n - x / u\<bar> * u \<le> 1 / 2 * u"
    using u by (intro mult_right_mono) simp_all
  moreover have "\<bar>of_int n - x / u\<bar> * u = \<bar>y - x\<bar>"
    using u by (simp add: y_def abs_mult_pos left_diff_distrib)
  ultimately have err: "\<bar>y - x\<bar> \<le> u / 2" by simp
  have u53: "u * 2 powi 53 = 2 * 2 powi e"
  proof -
    have "u * 2 powi 53 = 2 powi (e - 52 + 53)"
      unfolding u_def by (simp only: pow2_split)
    also have "\<dots> = 2 powi (e + 1)"
      by (rule arg_cong [where f = "\<lambda>k. 2 powi k"]) simp
    finally show ?thesis by (simp only: pow2_Suc)
  qed
  have p53: "(0::rat) < 2 powi 53" by (rule pow2_pos)
  from err have "\<bar>y - x\<bar> * 2 powi 53 \<le> u / 2 * 2 powi 53"
    using p53 by (intro mult_right_mono) simp_all
  also have "\<dots> = 2 powi e" using u53 by simp
  finally have rel: "\<bar>y - x\<bar> * 2 powi 53 \<le> \<bar>x\<bar>" using le by simp
  have "u \<le> 2 powi e" unfolding u_def by (rule pow2_mono) simp
  with err lt have "\<bar>y\<bar> < 2 powi (e + 1) + 2 powi e" by linarith
  also have "\<dots> \<le> 2 powi 1023 + 2 powi 1023"
    using e_hi by (intro add_mono pow2_mono) simp_all
  also have "\<dots> = 2 powi 1024"
    using pow2_Suc [of 1023] by simp
  finally have "\<bar>y\<bar> < 2 powi 1024" .
  then have "\<not> 2 powi 1024 \<le> y" and "\<not> y \<le> - (2 powi 1024)" by linarith+
  then have "rnd x = Num y"
    using nz unfolding rnd_def Let_def y_def n_def u_def e_def by (simp only: if_False)
  with rel show ?thesis by blast
qed

subsection \<open>Comparing and sorting numbers\<close>

lemma rnd_nonpos:
  assumes "x \<le> 0"
  shows "\<not> jsLess (Num 0) (rnd x)"
proof -
  from assms have "0 \<le> - x" by simp
  then have "rnd (- x) = Infinity \<or> (\<exists>y\<ge>0. rnd (- x) = Num y)" by (rule rnd_nonneg)
  moreover have "rnd x = fneg (rnd (- x))"
    using rnd_minus [of "- x"] by simp
  ultimately show ?thesis by auto
qed

lemma fsub_Num: "fsub (Num y) (Num x) = rnd (y - x)"
  by (simp add: fsub_def)

lemma fsub_sign:
  assumes "comparable a" "comparable b"
  shows "jsLess (Num 0) (fsub b a) \<longleftrightarrow> jsLess a b"
proof (cases a)
  case (Num x)
  note a = this
  show ?thesis
  proof (cases b)
    case (Num y)
    from assms a Num have grid: "onGrid (y - x)" by (simp add: onGrid_diff)
    show ?thesis
    proof (cases "x < y")
      case True
      with grid have "2 powi (- 1074) \<le> y - x" by (intro onGrid_pos) simp_all
      then have "jsLess (Num 0) (rnd (y - x))" by (rule rnd_positive)
      with True a Num show ?thesis by (simp add: fsub_Num)
    next
      case False
      then have "\<not> jsLess (Num 0) (rnd (y - x))" by (intro rnd_nonpos) simp
      with False a Num show ?thesis by (simp add: fsub_Num)
    qed
  qed (use assms a in \<open>simp_all add: fsub_def\<close>)
qed (use assms in \<open>cases b; simp add: fsub_def\<close>)+

lemma jsLess_rank: "a \<noteq> NaN \<Longrightarrow> b \<noteq> NaN \<Longrightarrow> jsLess a b \<longleftrightarrow> rank a < rank b"
  by (cases a; cases b) (simp_all add: less_prod_def)

lemma comparable_not_NaN: "comparable a \<Longrightarrow> a \<noteq> NaN"
  by (cases a) simp_all

lemma descending_le:
  "comparable a \<Longrightarrow> comparable b \<Longrightarrow> descending a \<le> descending b \<longleftrightarrow> \<not> jsLess a b"
  by (cases a; cases b) (auto simp: descending_def less_eq_prod_def)

lemma insertWith_insort_key:
  assumes "comparable (f x)" "\<forall>y\<in>set ys. comparable (f y)"
  shows "insertWith (\<lambda>a b. fsub (f b) (f a)) x ys = insort_key (\<lambda>a. descending (f a)) x ys"
  using assms(2)
proof (induction ys)
  case Nil
  show ?case by simp
next
  case (Cons y ys)
  then have y: "comparable (f y)" by simp
  have "jsLess (Num 0) (fsub (f y) (f x)) \<longleftrightarrow> \<not> descending (f x) \<le> descending (f y)"
    using assms(1) y by (simp add: fsub_sign descending_le)
  with Cons show ?case by simp
qed

lemma sortWith_sort_key:
  assumes "\<forall>x\<in>set xs. comparable (f x)"
  shows "sortWith (\<lambda>a b. fsub (f b) (f a)) xs = sort_key (\<lambda>a. descending (f a)) xs"
  using assms
proof (induction xs)
  case Nil
  show ?case by simp
next
  case (Cons x xs)
  then have ih: "sortWith (\<lambda>a b. fsub (f b) (f a)) xs = sort_key (\<lambda>a. descending (f a)) xs"
    by simp
  from Cons.prems have "\<forall>y\<in>set (sort_key (\<lambda>a. descending (f a)) xs). comparable (f y)"
    by simp
  with Cons.prems show ?case
    by (simp add: ih insertWith_insort_key)
qed

lemma sortWith_props:
  assumes "\<forall>x\<in>set xs. comparable (f x)"
  shows "mset (sortWith (\<lambda>a b. fsub (f b) (f a)) xs) = mset xs"
    and "sorted_wrt (\<lambda>a b. \<not> jsLess (f a) (f b)) (sortWith (\<lambda>a b. fsub (f b) (f a)) xs)"
    and "filter (\<lambda>a. f a = c) (sortWith (\<lambda>a b. fsub (f b) (f a)) xs) = filter (\<lambda>a. f a = c) xs"
proof -
  let ?out = "sortWith (\<lambda>a b. fsub (f b) (f a)) xs"
  note eq = sortWith_sort_key [OF assms]
  show perm: "mset ?out = mset xs" by (simp add: eq)
  then have "set ?out = set xs" by (rule mset_eq_setD)
  with assms have comp: "\<forall>x\<in>set ?out. comparable (f x)" by simp
  have "sorted (map (\<lambda>a. descending (f a)) ?out)"
    unfolding eq by (rule sorted_sort_key)
  then have "sorted_wrt (\<lambda>a b. descending (f a) \<le> descending (f b)) ?out"
    by (simp add: sorted_map)
  then show "sorted_wrt (\<lambda>a b. \<not> jsLess (f a) (f b)) ?out"
    by (rule sorted_wrt_mono_rel [rotated]) (use comp in \<open>simp add: descending_le\<close>)
  have inj: "descending (f a) = descending c \<longleftrightarrow> f a = c" for a
    by (cases "f a"; cases c) (auto simp: descending_def)
  have "filter (\<lambda>a. descending (f a) = descending c) ?out
      = filter (\<lambda>a. descending (f a) = descending c) xs"
    unfolding eq by (rule sort_key_stable)
  then show "filter (\<lambda>a. f a = c) ?out = filter (\<lambda>a. f a = c) xs"
    by (simp only: inj)
qed

lemma length_sortWith: "length (sortWith cmp xs) = length xs"
proof (induction xs)
  case Nil
  show ?case by simp
next
  case (Cons x xs)
  have "length (insertWith cmp x ys) = Suc (length ys)" for ys
    by (induction ys) simp_all
  then show ?case by (simp add: Cons.IH)
qed

lemma rnd_finite:
  assumes hi: "\<bar>x\<bar> < 2 powi 1023"
  shows "\<exists>y. rnd x = Num y"
proof (cases "x = 0")
  case True
  then show ?thesis by (simp add: rnd_def)
next
  case nz: False
  define e where "e = exponent \<bar>x\<bar>"
  note sp = exponent_spec [of "\<bar>x\<bar>", folded e_def]
  have e_hi: "e \<le> 1022"
  proof (rule ccontr)
    assume "\<not> e \<le> 1022"
    then have "1023 \<le> e" by simp
    then have "(2::rat) powi 1023 \<le> 2 powi e" by (rule pow2_mono)
    moreover from \<open>1023 \<le> e\<close> sp have "2 powi e \<le> \<bar>x\<bar>" by simp
    ultimately show False using hi by linarith
  qed
  with sp have lt: "\<bar>x\<bar> < 2 powi (e + 1)" by simp
  define u :: rat where "u = 2 powi (e - 52)"
  have u: "0 < u" unfolding u_def by (rule pow2_pos)
  define n where "n = roundHalfEven (x / u)"
  define y where "y = of_int n * u"
  have "\<bar>of_int n - x / u\<bar> \<le> 1 / 2"
    unfolding n_def by (rule roundHalfEven_near)
  then have "\<bar>of_int n - x / u\<bar> * u \<le> 1 / 2 * u"
    using u by (intro mult_right_mono) simp_all
  moreover have "\<bar>of_int n - x / u\<bar> * u = \<bar>y - x\<bar>"
    using u by (simp add: y_def abs_mult_pos left_diff_distrib)
  ultimately have err: "\<bar>y - x\<bar> \<le> u / 2" by simp
  have "u \<le> 2 powi e" unfolding u_def by (rule pow2_mono) simp
  with err lt u have "\<bar>y\<bar> < 2 powi (e + 1) + 2 powi e" by linarith
  also have "\<dots> \<le> 2 powi 1023 + 2 powi 1023"
    using e_hi by (intro add_mono pow2_mono) simp_all
  also have "\<dots> = 2 powi 1024"
    using pow2_Suc [of 1023] by simp
  finally have "\<bar>y\<bar> < 2 powi 1024" .
  then have "\<not> 2 powi 1024 \<le> y" and "\<not> y \<le> - (2 powi 1024)" by linarith+
  then have "rnd x = Num y"
    using nz unfolding rnd_def Let_def y_def n_def u_def e_def by (simp only: if_False)
  then show ?thesis by blast
qed

lemma rnd_not_NaN [simp]: "\<not> isNaN (rnd x)"
  by (simp add: rnd_def Let_def)

lemma rnd_comparable [simp]: "comparable (rnd x)"
  by (cases "rnd x") (use rnd_not_NaN [of x] in \<open>simp_all add: rnd_onGrid\<close>)

text \<open>The facts that evaluate \<open>rnd\<close> at a given rational.\<close>

lemmas rnd_eval =
  rnd_def exponent_def expUp.simps expDown.simps Let_def roundHalfEven_def floor_rat_numeral

subsection \<open>The number tokenizer\<close>

lemma digit_not_comma: "isDigit c \<Longrightarrow> c \<noteq> 44"
  by (auto simp: isDigit_def)

lemma leadDigits_Cons: "isDigit c \<Longrightarrow> leadDigits (c # cs) = c # takeWhile isDigit (take 2 cs)"
  by (simp add: leadDigits_def numeral_3_eq_3 numeral_2_eq_2)

lemma leadDigits_prefix: "take (length (leadDigits s)) s = leadDigits s"
proof -
  have "prefix (takeWhile isDigit (take 3 s)) (take 3 s)"
    by (metis prefixI takeWhile_dropWhile_id)
  then have "prefix (leadDigits s) s"
    unfolding leadDigits_def using take_is_prefix prefix_order.trans by blast
  then show ?thesis by (metis append_eq_conv_conj prefixE)
qed

lemma commaGroups_prefix: "take (length (commaGroups s)) s = commaGroups s"
  by (induction s rule: commaGroups.induct) simp_all

lemma fraction_prefix: "take (length (fraction s)) s = fraction s"
proof (induction s rule: fraction.induct)
  case (1 c d rest)
  have "take (length (takeWhile isDigit rest)) rest = takeWhile isDigit rest"
    by (metis append_eq_conv_conj takeWhile_dropWhile_id)
  then show ?case by simp
qed simp_all

lemma matchAt_prefix: "matchAt s @ drop (length (matchAt s)) s = s"
proof -
  define a where "a = leadDigits s"
  define r1 where "r1 = drop (length a) s"
  define b where "b = commaGroups r1"
  define r2 where "r2 = drop (length b) r1"
  define f where "f = fraction r2"
  have m: "matchAt s = a @ b @ f"
    by (simp add: matchAt_def Let_def a_def r1_def b_def r2_def f_def)
  have s: "s = a @ r1"
    unfolding r1_def a_def by (metis append_take_drop_id leadDigits_prefix)
  have r1: "r1 = b @ r2"
    unfolding r2_def b_def by (metis append_take_drop_id commaGroups_prefix)
  have r2: "r2 = f @ drop (length f) r2"
    unfolding f_def by (metis append_take_drop_id fraction_prefix)
  have "drop (length (matchAt s)) s = drop (length f) r2"
    unfolding m by (subst s, subst r1, subst r2) simp
  then show ?thesis
    unfolding m using s r1 r2 by simp
qed

lemma matchAt_Cons: "isDigit c \<Longrightarrow> \<exists>t. matchAt (c # cs) = c # t"
  by (simp add: matchAt_def Let_def leadDigits_Cons)

lemma matchAll_token_starts:
  "tok \<in> set (matchAll text) \<Longrightarrow> \<exists>c cs. tok = matchAt (c # cs) \<and> isDigit c"
proof (induction "text" rule: matchAll.induct)
  case 1
  then show ?case by simp
next
  case (2 c cs)
  show ?case
  proof (cases "isDigit c")
    case True
    with "2.prems" have "tok = matchAt (c # cs)
        \<or> tok \<in> set (matchAll (drop (length (matchAt (c # cs))) (c # cs)))"
      by simp
    then show ?thesis
    proof
      assume "tok = matchAt (c # cs)"
      with True show ?thesis by auto
    next
      assume "tok \<in> set (matchAll (drop (length (matchAt (c # cs))) (c # cs)))"
      with True "2.IH"(1) show ?thesis by simp
    qed
  next
    case False
    with "2.prems" "2.IH"(2) show ?thesis by simp
  qed
qed

lemma matchAll_Nil: "matchAll text = [] \<longleftrightarrow> (\<forall>c\<in>set text. \<not> isDigit c)"
  by (induction "text" rule: matchAll.induct) auto

lemma matchAll_first:
  "matchAll text = tok # rest \<Longrightarrow>
     \<exists>pre post. text = pre @ tok @ post \<and> (\<forall>c\<in>set pre. \<not> isDigit c) \<and> rest = matchAll post"
proof (induction "text" rule: matchAll.induct)
  case 1
  then show ?case by simp
next
  case (2 c cs)
  show ?case
  proof (cases "isDigit c")
    case True
    let ?m = "matchAt (c # cs)"
    from True "2.prems" have tok: "tok = ?m" and rest: "rest = matchAll (drop (length ?m) (c # cs))"
      by auto
    have "c # cs = [] @ tok @ drop (length ?m) (c # cs)"
      unfolding tok using matchAt_prefix [of "c # cs"] by simp
    with rest show ?thesis by (metis empty_iff list.set(1))
  next
    case False
    with "2.prems" have "matchAll cs = tok # rest" by simp
    with False "2.IH"(2) obtain pre post
      where "cs = pre @ tok @ post" "\<forall>c\<in>set pre. \<not> isDigit c" "rest = matchAll post"
      by blast
    with False have "c # cs = (c # pre) @ tok @ post \<and> (\<forall>x\<in>set (c # pre). \<not> isDigit x)
        \<and> rest = matchAll post"
      by simp
    then show ?thesis by blast
  qed
qed

lemma removeCommas_digits: "\<forall>x\<in>set s. isDigit x \<Longrightarrow> removeCommas s = s"
  by (auto simp: removeCommas_def digit_not_comma intro: filter_True)

lemma commaGroups_digits: "x \<in> set (removeCommas (commaGroups s)) \<Longrightarrow> isDigit x"
proof (induction s rule: commaGroups.induct)
  case (1 c d1 d2 d3 rest)
  show ?case
  proof (cases "c = 44 \<and> isDigit d1 \<and> isDigit d2 \<and> isDigit d3")
    case True
    with "1.prems" have "x \<in> {d1, d2, d3} \<or> x \<in> set (removeCommas (commaGroups rest))"
      by (auto simp: removeCommas_def split: if_splits)
    with True "1.IH" show ?thesis by auto
  next
    case False
    with "1.prems" show ?thesis by (simp add: removeCommas_def)
  qed
qed (simp_all add: removeCommas_def)

lemma fraction_shape:
  "fraction s = [] \<or> (\<exists>fp. fraction s = 46 # fp \<and> fp \<noteq> [] \<and> (\<forall>x\<in>set fp. isDigit x))"
  by (induction s rule: fraction.induct) (auto dest: set_takeWhileD)

text \<open>
  A token without its commas is a string of digits, followed or not by a point and digits, and
  \<open>parseFloat\<close> reads all of it: its value is the double nearest to the decimal number written.
\<close>

lemma parseFloat_decimal:
  assumes ip: "ip \<noteq> []" "\<forall>x\<in>set ip. isDigit x" and fp: "\<forall>x\<in>set fp. isDigit x"
  shows "parseFloat (ip @ (if fp = [] then [] else 46 # fp))
           = rnd (of_nat (decimal ip) + of_nat (decimal fp) / 10 ^ length fp)"
proof -
  let ?s = "ip @ (if fp = [] then [] else 46 # fp)"
  have np: "\<not> isDigit 46" by (simp add: isDigit_def)
  have tw: "takeWhile isDigit ?s = ip"
    using ip(2) np by (simp add: takeWhile_append2)
  have dw: "dropWhile isDigit ?s = (if fp = [] then [] else 46 # fp)"
    using ip(2) np by (simp add: dropWhile_append2)
  have fw: "takeWhile isDigit fp = fp"
    using fp by (simp add: takeWhile_eq_all_conv)
  show ?thesis
    unfolding parseFloat_def Let_def tw dw using ip(1) by (simp add: fw decimal_def)
qed

lemma cleaned_token_shape:
  assumes "isDigit c"
  shows "\<exists>ip fp. removeCommas (matchAt (c # cs)) = ip @ (if fp = [] then [] else 46 # fp)
           \<and> ip \<noteq> [] \<and> (\<forall>x\<in>set ip. isDigit x) \<and> (\<forall>x\<in>set fp. isDigit x)"
proof -
  define a where "a = leadDigits (c # cs)"
  define r1 where "r1 = drop (length a) (c # cs)"
  define b where "b = commaGroups r1"
  define f where "f = fraction (drop (length b) r1)"
  have m: "matchAt (c # cs) = a @ b @ f"
    by (simp add: matchAt_def Let_def a_def r1_def b_def f_def)
  have a_ne: "a \<noteq> []"
    using assms by (simp add: a_def leadDigits_Cons)
  have a_dig: "\<forall>x\<in>set a. isDigit x"
    unfolding a_def leadDigits_def by (auto dest: set_takeWhileD)
  have b_dig: "\<forall>x\<in>set (removeCommas b). isDigit x"
    unfolding b_def using commaGroups_digits by blast
  have split: "removeCommas (matchAt (c # cs)) = (a @ removeCommas b) @ removeCommas f"
    using removeCommas_digits [OF a_dig] by (simp add: m removeCommas_def)
  from fraction_shape [of "drop (length b) r1"]
  consider "f = []" | fp where "f = 46 # fp" "fp \<noteq> []" "\<forall>x\<in>set fp. isDigit x"
    unfolding f_def by blast
  then show ?thesis
  proof cases
    case 1
    have "removeCommas (matchAt (c # cs)) = (a @ removeCommas b) @ (if [] = [] then [] else 46 # [])"
      using split 1 by (simp add: removeCommas_def)
    with a_ne a_dig b_dig show ?thesis
      by (intro exI [of _ "a @ removeCommas b"] exI [of _ "[]"]) auto
  next
    case 2
    have "removeCommas f = 46 # fp"
      using 2 removeCommas_digits [of fp] by (simp add: removeCommas_def)
    then have "removeCommas (matchAt (c # cs)) = (a @ removeCommas b) @ (if fp = [] then [] else 46 # fp)"
      using split 2 by simp
    with a_ne a_dig b_dig 2 show ?thesis
      by (intro exI [of _ "a @ removeCommas b"] exI [of _ fp]) auto
  qed
qed

lemma token_value:
  assumes "tok \<in> set (matchAll text)"
  shows "\<exists>ip fp. removeCommas tok = ip @ (if fp = [] then [] else 46 # fp)
           \<and> ip \<noteq> [] \<and> (\<forall>x\<in>set ip. isDigit x) \<and> (\<forall>x\<in>set fp. isDigit x)
           \<and> parseFloat (removeCommas tok)
               = rnd (of_nat (decimal ip) + of_nat (decimal fp) / 10 ^ length fp)"
proof -
  from assms obtain c cs where tok: "tok = matchAt (c # cs)" and d: "isDigit c"
    using matchAll_token_starts by blast
  from cleaned_token_shape [OF d, of cs] obtain ip fp
    where shape: "removeCommas tok = ip @ (if fp = [] then [] else 46 # fp)"
      and ip: "ip \<noteq> []" "\<forall>x\<in>set ip. isDigit x" and fp: "\<forall>x\<in>set fp. isDigit x"
    unfolding tok by blast
  have "parseFloat (removeCommas tok)
      = rnd (of_nat (decimal ip) + of_nat (decimal fp) / 10 ^ length fp)"
    unfolding shape using ip fp by (rule parseFloat_decimal)
  with shape ip fp show ?thesis by blast
qed

lemma parseFloat_token:
  "tok \<in> set (matchAll text) \<Longrightarrow> \<not> isNaN (parseFloat (removeCommas tok))"
  using token_value [of tok "text"] by auto

lemma parseFloat_token_comparable:
  "tok \<in> set (matchAll text) \<Longrightarrow> comparable (parseFloat (removeCommas tok))"
  using token_value [of tok "text"] by auto

lemma extractNumbers_tokens:
  "extractNumbers text =
     filter (\<lambda>num. jsLess (Num 0) num) (map (\<lambda>tok. parseFloat (removeCommas tok)) (matchAll text))"
proof -
  have "filter (\<lambda>num. \<not> isNaN num) (map (\<lambda>m. parseFloat (removeCommas m)) (matchAll text))
      = map (\<lambda>m. parseFloat (removeCommas m)) (matchAll text)"
    using parseFloat_token [of _ "text"] by (intro filter_True) auto
  then show ?thesis
    by (simp add: extractNumbers_def comp_def)
qed

lemma extractNumbers_positiveDouble: "num \<in> set (extractNumbers text) \<Longrightarrow> positiveDouble num"
  using parseFloat_token_comparable [of _ "text"]
  by (auto simp: extractNumbers_tokens positiveDouble_def)

lemma decimal_snoc: "decimal (ds @ [d]) = 10 * decimal ds + (d - 48)"
  by (simp add: decimal_def)

lemma decimal_one_zeros: "decimal (49 # replicate n 48) = 10 ^ n"
proof (induction n)
  case 0
  show ?case by (simp add: decimal_def)
next
  case (Suc n)
  have "49 # replicate (Suc n) 48 = (49 # replicate n 48) @ [48 :: nat]"
    by (simp add: replicate_append_same)
  then have "decimal (49 # replicate (Suc n) 48) = decimal ((49 # replicate n 48) @ [48])"
    by (simp only:)
  also have "\<dots> = 10 * decimal (49 # replicate n 48) + (48 - 48)"
    by (rule decimal_snoc)
  also have "\<dots> = 10 ^ Suc n"
    by (simp only: Suc.IH) simp
  finally show ?case .
qed

text \<open>
  C2: the tokenizer maps \<^verbatim>\<open>"1,234.56"\<close> to the single value 1234.56, that is to the double
  nearest to it, and both \<^verbatim>\<open>"99"\<close> and \<^verbatim>\<open>"99.00"\<close> to 99, and it returns nothing for
  \<^verbatim>\<open>"0"\<close>. For \<^verbatim>\<open>"-5"\<close> it returns \<open>[5]\<close> instead of nothing: the pattern has no sign, so the
  token is \<^verbatim>\<open>"5"\<close>, and the filter that the source has to remove the negative values keeps it.
\<close>

theorem extractNumbers_examples:
  "extractNumbers (js ''1,234.56'') = [rnd (123456 / 100)]
   \<and> rnd (123456 / 100) = Num (2714826150374277 / 2199023255552)
   \<and> extractNumbers (js ''99'') = [Num 99]
   \<and> extractNumbers (js ''99.00'') = [Num 99]
   \<and> extractNumbers (js ''0'') = []
   \<and> extractNumbers (js ''-5'') = [Num 5]"
proof -
  have tokens: "matchAll (js ''1,234.56'') = [js ''1,234.56'']" "matchAll (js ''99'') = [js ''99'']"
    "matchAll (js ''99.00'') = [js ''99.00'']" "matchAll (js ''0'') = [js ''0'']"
    "matchAll (js ''-5'') = [js ''5'']"
    by code_simp+
  have nearest: "rnd (123456 / 100) = Num (2714826150374277 / 2199023255552)"
    by (simp add: rnd_eval)
  have parsed: "parseFloat (removeCommas (js ''1,234.56'')) = Num (2714826150374277 / 2199023255552)"
    "parseFloat (removeCommas (js ''99'')) = Num 99"
    "parseFloat (removeCommas (js ''99.00'')) = Num 99"
    "parseFloat (removeCommas (js ''0'')) = Num 0"
    "parseFloat (removeCommas (js ''5'')) = Num 5"
    by (simp_all add: parseFloat_def removeCommas_def decimal_def isDigit_def js_def rnd_eval)
  have "extractNumbers (js ''1,234.56'') = [Num (2714826150374277 / 2199023255552)]"
    by (simp add: extractNumbers_def tokens parsed)
  then have "extractNumbers (js ''1,234.56'') = [rnd (123456 / 100)]"
    by (simp only: nearest)
  moreover have "extractNumbers (js ''99'') = [Num 99]" "extractNumbers (js ''99.00'') = [Num 99]"
    "extractNumbers (js ''0'') = []" "extractNumbers (js ''-5'') = [Num 5]"
    by (simp_all add: extractNumbers_def tokens parsed)
  ultimately show ?thesis
    using nearest by (intro conjI)
qed

text \<open>
  C9: the numbers the tokenizer returns are greater than 0 and are doubles or \<open>Infinity\<close>, never
  \<^verbatim>\<open>NaN\<close>; they are the values of the tokens, in the order of the tokens, every token whose
  value is greater than 0 being kept, so that a value found twice is returned twice; the value
  of a token is the double nearest to the decimal number it writes, which is finite when that
  number is below \<open>2\<^sup>1\<^sup>0\<^sup>2\<^sup>3\<close>; and the tokens are found from left to right, the first one
  after a stretch without digits, the others in what follows it. The values are not all finite:
  a token of 310 digits has the value \<open>Infinity\<close>, and it is returned.
\<close>

theorem extractNumbers_positive_in_order:
  "(\<forall>num\<in>set (extractNumbers s). positiveDouble num)
   \<and> extractNumbers s =
       filter (\<lambda>num. jsLess (Num 0) num) (map (\<lambda>tok. parseFloat (removeCommas tok)) (matchAll s))
   \<and> (\<forall>tok\<in>set (matchAll s).
         \<exists>ip fp. removeCommas tok = ip @ (if fp = [] then [] else 46 # fp)
           \<and> ip \<noteq> [] \<and> (\<forall>x\<in>set ip. isDigit x) \<and> (\<forall>x\<in>set fp. isDigit x)
           \<and> parseFloat (removeCommas tok)
               = rnd (of_nat (decimal ip) + of_nat (decimal fp) / 10 ^ length fp)
           \<and> (of_nat (decimal ip) + of_nat (decimal fp) / 10 ^ length fp < (2::rat) powi 1023
                \<longrightarrow> (\<exists>y. parseFloat (removeCommas tok) = Num y)))
   \<and> (matchAll s = [] \<longleftrightarrow> (\<forall>c\<in>set s. \<not> isDigit c))
   \<and> (\<forall>tok rest. matchAll s = tok # rest \<longrightarrow>
         (\<exists>pre post. s = pre @ tok @ post \<and> (\<forall>c\<in>set pre. \<not> isDigit c)
            \<and> rest = matchAll post))"
proof -
  have "\<forall>num\<in>set (extractNumbers s). positiveDouble num"
    using extractNumbers_positiveDouble by blast
  moreover note extractNumbers_tokens [of s]
  moreover have "\<forall>tok\<in>set (matchAll s).
         \<exists>ip fp. removeCommas tok = ip @ (if fp = [] then [] else 46 # fp)
           \<and> ip \<noteq> [] \<and> (\<forall>x\<in>set ip. isDigit x) \<and> (\<forall>x\<in>set fp. isDigit x)
           \<and> parseFloat (removeCommas tok)
               = rnd (of_nat (decimal ip) + of_nat (decimal fp) / 10 ^ length fp)
           \<and> (of_nat (decimal ip) + of_nat (decimal fp) / 10 ^ length fp < (2::rat) powi 1023
                \<longrightarrow> (\<exists>y. parseFloat (removeCommas tok) = Num y))"
  proof
    fix tok
    assume "tok \<in> set (matchAll s)"
    from token_value [OF this] obtain ip fp
      where shape: "removeCommas tok = ip @ (if fp = [] then [] else 46 # fp)"
        "ip \<noteq> []" "\<forall>x\<in>set ip. isDigit x" "\<forall>x\<in>set fp. isDigit x"
        and v: "parseFloat (removeCommas tok)
               = rnd (of_nat (decimal ip) + of_nat (decimal fp) / 10 ^ length fp)"
      by blast
    define v :: rat where "v = of_nat (decimal ip) + of_nat (decimal fp) / 10 ^ length fp"
    have "0 \<le> v" unfolding v_def by simp
    then have "\<exists>y. rnd v = Num y" if "v < 2 powi 1023"
      using that by (intro rnd_finite) simp
    with shape v show "\<exists>ip fp. removeCommas tok = ip @ (if fp = [] then [] else 46 # fp)
           \<and> ip \<noteq> [] \<and> (\<forall>x\<in>set ip. isDigit x) \<and> (\<forall>x\<in>set fp. isDigit x)
           \<and> parseFloat (removeCommas tok)
               = rnd (of_nat (decimal ip) + of_nat (decimal fp) / 10 ^ length fp)
           \<and> (of_nat (decimal ip) + of_nat (decimal fp) / 10 ^ length fp < (2::rat) powi 1023
                \<longrightarrow> (\<exists>y. parseFloat (removeCommas tok) = Num y))"
      unfolding v_def by (intro exI [of _ ip] exI [of _ fp]) (simp del: power_int_numeral)
  qed
  moreover note matchAll_Nil [of s]
  moreover have "\<forall>tok rest. matchAll s = tok # rest \<longrightarrow>
         (\<exists>pre post. s = pre @ tok @ post \<and> (\<forall>c\<in>set pre. \<not> isDigit c)
            \<and> rest = matchAll post)"
    using matchAll_first by blast
  ultimately show ?thesis by blast
qed

theorem extractNumbers_positive_in_order_witness:
  "extractNumbers (js ''7 of 1,250.5 and 7 or 0'') = [Num 7, Num (2501 / 2), Num 7]
   \<and> matchAll (js ''7 of 1,250.5 and 7 or 0'') = [js ''7'', js ''1,250.5'', js ''7'', js ''0'']
   \<and> positiveDouble (extractNumbers (js ''7 of 1,250.5 and 7 or 0'') ! 1)"
proof -
  have m: "matchAll (js ''7 of 1,250.5 and 7 or 0'') = [js ''7'', js ''1,250.5'', js ''7'', js ''0'']"
    by code_simp
  have parsed: "parseFloat (removeCommas (js ''7'')) = Num 7"
    "parseFloat (removeCommas (js ''1,250.5'')) = Num (2501 / 2)"
    "parseFloat (removeCommas (js ''0'')) = Num 0"
    by (simp_all add: parseFloat_def removeCommas_def decimal_def isDigit_def js_def rnd_eval)
  have e: "extractNumbers (js ''7 of 1,250.5 and 7 or 0'') = [Num 7, Num (2501 / 2), Num 7]"
    by (simp add: extractNumbers_def m parsed)
  from extractNumbers_positive_in_order [of "js ''7 of 1,250.5 and 7 or 0''"]
  have "\<forall>num\<in>set (extractNumbers (js ''7 of 1,250.5 and 7 or 0'')). positiveDouble num"
    by blast
  moreover have "extractNumbers (js ''7 of 1,250.5 and 7 or 0'') ! 1
      \<in> set (extractNumbers (js ''7 of 1,250.5 and 7 or 0''))"
    by (rule nth_mem) (simp add: e)
  ultimately have "positiveDouble (extractNumbers (js ''7 of 1,250.5 and 7 or 0'') ! 1)"
    by blast
  with e m show ?thesis by blast
qed

theorem extractNumbers_counterexample:
  "extractNumbers (js ''1'' @ concat (replicate 103 (js '',000''))) = [Infinity]"
proof -
  let ?t = "js ''1'' @ concat (replicate 103 (js '',000''))"
  have tokens: "matchAll ?t = [?t]" by code_simp
  have clean: "removeCommas ?t = 49 # replicate 309 48" by code_simp
  have "parseFloat (49 # replicate 309 48) = rnd (10 ^ 309)"
    using parseFloat_decimal [of "49 # replicate 309 48" "[]"]
    by (simp add: decimal_one_zeros isDigit_def) (simp add: decimal_def)
  also have "\<dots> = Infinity"
    by (rule rnd_overflow) simp
  finally show ?thesis
    by (simp add: extractNumbers_def tokens clean)
qed

subsection \<open>Searching in strings\<close>

lemma startsWith_prefix: "startsWith s p \<longleftrightarrow> prefix p s"
  by (induction s p rule: startsWith.induct) auto

lemma indexOf_range: "indexOf s p = - 1 \<or> (0 \<le> indexOf s p \<and> indexOf s p \<le> int (length s))"
  by (induction s) (auto simp: Let_def)

lemma indexOf_found: "indexOf s p \<noteq> - 1 \<Longrightarrow> prefix p (drop (nat (indexOf s p)) s)"
proof (induction s)
  case Nil
  then show ?case by (simp split: if_splits)
next
  case (Cons x xs)
  show ?case
  proof (cases "startsWith (x # xs) p")
    case True
    then show ?thesis by (simp add: startsWith_prefix)
  next
    case False
    with Cons.prems have ne: "indexOf xs p \<noteq> - 1"
      by (auto simp: Let_def split: if_splits)
    with indexOf_range [of xs p] have "0 \<le> indexOf xs p" by simp
    then have "nat (indexOf xs p + 1) = Suc (nat (indexOf xs p))" by simp
    with False ne Cons.IH show ?thesis by (simp add: Let_def)
  qed
qed

lemma indexOf_least:
  "(indexOf s p = - 1 \<and> j \<le> length s) \<or> int j < indexOf s p \<Longrightarrow> \<not> prefix p (drop j s)"
proof (induction s arbitrary: j)
  case Nil
  then show ?case by (auto split: if_splits)
next
  case (Cons x xs)
  show ?case
  proof (cases "startsWith (x # xs) p")
    case True
    with Cons.prems show ?thesis by simp
  next
    case False
    show ?thesis
    proof (cases j)
      case 0
      with False show ?thesis by (simp add: startsWith_prefix)
    next
      case (Suc k)
      from False Cons.prems Suc indexOf_range [of xs p]
      have "(indexOf xs p = - 1 \<and> k \<le> length xs) \<or> int k < indexOf xs p"
        by (auto simp: Let_def split: if_splits)
      with Cons.IH Suc show ?thesis by simp
    qed
  qed
qed

lemma includesStr_sublist: "includesStr s p \<longleftrightarrow> sublist p s"
proof
  assume "includesStr s p"
  then have "prefix p (drop (nat (indexOf s p)) s)"
    by (simp add: includesStr_def indexOf_found)
  then obtain r where "drop (nat (indexOf s p)) s = p @ r"
    by (auto simp: prefix_def)
  then have "s = take (nat (indexOf s p)) s @ p @ r"
    by (metis append_take_drop_id)
  then show "sublist p s"
    unfolding sublist_def by blast
next
  assume "sublist p s"
  then obtain a b where s: "s = a @ p @ b"
    unfolding sublist_def by blast
  then have "prefix p (drop (length a) s)" and "length a \<le> length s"
    by simp_all
  with indexOf_least [of s p "length a"] show "includesStr s p"
    unfolding includesStr_def by blast
qed

subsection \<open>The currency detector\<close>

lemma scanEntries_find:
  "scanEntries h u es =
     map_option snd (find (\<lambda>(pattern, code). sublist (toUpperCase h pattern) u) es)"
  by (induction es) (auto simp: includesStr_sublist)

lemma keepsUpperAscii_sublist:
  assumes "keepsUpperAscii f" "s \<noteq> []" "\<forall>c\<in>set s. c < 128 \<and> \<not> (97 \<le> c \<and> c \<le> 122)"
  shows "f s = s" and "sublist s t \<Longrightarrow> sublist s (f t)"
proof -
  from assms have "f ([] @ s @ []) = f [] @ s @ f []"
    unfolding keepsUpperAscii_def by blast
  with assms(1) show "f s = s"
    by (simp add: keepsUpperAscii_def)
  assume "sublist s t"
  then obtain a b where "t = a @ s @ b"
    unfolding sublist_def by blast
  with assms have "f t = f a @ s @ f b"
    unfolding keepsUpperAscii_def by blast
  then show "sublist s (f t)"
    unfolding sublist_def by blast
qed

lemma keepsUpperAscii_ascii: "keepsUpperAscii (map upperUnit)"
proof -
  have "map upperUnit s = s" if "\<forall>c\<in>set s. c < 128 \<and> \<not> (97 \<le> c \<and> c \<le> 122)" for s
    using that by (induction s) (auto simp: upperUnit_def)
  then show ?thesis
    by (simp add: keepsUpperAscii_def)
qed

text \<open>
  C7: the currency detector returns the code of the first entry of the mapping, in the order
  in which the entries are written, whose pattern in upper case occurs in the text in upper
  case, and \<^verbatim>\<open>AED\<close> when there is none. A text that contains \<^verbatim>\<open>AED 500\<close> gives \<^verbatim>\<open>AED\<close>. A text
  that contains both \<^verbatim>\<open>$\<close> and \<^verbatim>\<open>EUR\<close> gives the code that comes first in the mapping: \<^verbatim>\<open>USD\<close>,
  the code of \<^verbatim>\<open>$\<close>, and never \<^verbatim>\<open>EUR\<close>, unless one of the three patterns written before \<^verbatim>\<open>$\<close>
  occurs as well, which gives their code \<^verbatim>\<open>AED\<close>.
\<close>

theorem detectCurrency_first_match:
  "detectCurrency h s =
     (case find (\<lambda>(pattern, code). sublist (toUpperCase h pattern) (toUpperCase h s)) currencyMap of
        Some (pattern, code) \<Rightarrow> code
      | None \<Rightarrow> js ''AED'')
   \<and> ((\<forall>(pattern, code)\<in>set currencyMap. \<not> sublist (toUpperCase h pattern) (toUpperCase h s))
        \<longrightarrow> detectCurrency h s = js ''AED'')
   \<and> (keepsUpperAscii (toUpperCase h) \<and> sublist (js ''AED 500'') s
        \<longrightarrow> detectCurrency h s = js ''AED'')
   \<and> (keepsUpperAscii (toUpperCase h) \<and> sublist (js ''$'') s \<and> sublist (js ''EUR'') s
        \<longrightarrow> detectCurrency h s =
             (if \<exists>(pattern, code)\<in>set (take 3 currencyMap).
                   sublist (toUpperCase h pattern) (toUpperCase h s)
              then js ''AED'' else js ''USD''))"
proof -
  let ?u = "toUpperCase h s"
  let ?hit = "\<lambda>(pattern, code). sublist (toUpperCase h pattern) ?u"
  have first: "detectCurrency h s =
     (case find ?hit currencyMap of Some (pattern, code) \<Rightarrow> code | None \<Rightarrow> js ''AED'')"
    by (simp add: detectCurrency_def Let_def scanEntries_find split: option.splits)
  have none: "detectCurrency h s = js ''AED''"
    if "\<forall>(pattern, code)\<in>set currencyMap. \<not> sublist (toUpperCase h pattern) ?u"
  proof -
    from that have "find ?hit currencyMap = None"
      by (auto simp: find_None_iff)
    with first show ?thesis by simp
  qed
  have aed: "detectCurrency h s = js ''AED''"
    if k: "keepsUpperAscii (toUpperCase h)" and sub: "sublist (js ''AED 500'') s"
  proof -
    from sub have "sublist (js ''AED'') s"
      by (auto simp: sublist_def js_def)
    with k have "toUpperCase h (js ''AED'') = js ''AED''" and "sublist (js ''AED'') ?u"
      by (simp_all add: keepsUpperAscii_sublist js_def)
    then show ?thesis
      by (simp add: first currencyMap_def)
  qed
  have usd: "detectCurrency h s =
             (if \<exists>(pattern, code)\<in>set (take 3 currencyMap). sublist (toUpperCase h pattern) ?u
              then js ''AED'' else js ''USD'')"
    if k: "keepsUpperAscii (toUpperCase h)" and sub: "sublist (js ''$'') s"
  proof -
    from k sub have "toUpperCase h (js ''$'') = js ''$''" and "sublist (js ''$'') ?u"
      by (simp_all add: keepsUpperAscii_sublist js_def)
    then show ?thesis
      by (simp add: first currencyMap_def)
  qed
  from first none aed usd show ?thesis by blast
qed


theorem detectCurrency_first_match_witness:
  "detectCurrency asciiHost (js ''Invoice AED 500'') = js ''AED''
   \<and> detectCurrency asciiHost (js ''Paid $5, or EUR 4'') = js ''USD''
   \<and> detectCurrency asciiHost (js ''no marker 12'') = js ''AED''"
proof -
  have k: "keepsUpperAscii (toUpperCase asciiHost)"
    by (simp add: asciiHost_def keepsUpperAscii_ascii)
  have "includesStr (js ''Invoice AED 500'') (js ''AED 500'')"
    by code_simp
  then have a: "sublist (js ''AED 500'') (js ''Invoice AED 500'')"
    by (simp add: includesStr_sublist)
  have "includesStr (js ''Paid $5, or EUR 4'') (js ''$'')"
    and "includesStr (js ''Paid $5, or EUR 4'') (js ''EUR'')"
    by code_simp+
  then have b: "sublist (js ''$'') (js ''Paid $5, or EUR 4'')"
    "sublist (js ''EUR'') (js ''Paid $5, or EUR 4'')"
    by (simp_all add: includesStr_sublist)
  have "\<forall>(pattern, code)\<in>set (take 3 currencyMap).
          \<not> includesStr (toUpperCase asciiHost (js ''Paid $5, or EUR 4''))
               (toUpperCase asciiHost pattern)"
    by code_simp
  then have c: "\<not> (\<exists>(pattern, code)\<in>set (take 3 currencyMap).
          sublist (toUpperCase asciiHost pattern) (toUpperCase asciiHost (js ''Paid $5, or EUR 4'')))"
    by (simp add: includesStr_sublist split_def)
  have "\<forall>(pattern, code)\<in>set currencyMap.
          \<not> includesStr (toUpperCase asciiHost (js ''no marker 12''))
               (toUpperCase asciiHost pattern)"
    by code_simp
  then have d: "\<forall>(pattern, code)\<in>set currencyMap.
          \<not> sublist (toUpperCase asciiHost pattern) (toUpperCase asciiHost (js ''no marker 12''))"
    by (simp add: includesStr_sublist split_def)
  from k a detectCurrency_first_match [of asciiHost "js ''Invoice AED 500''"]
  have 1: "detectCurrency asciiHost (js ''Invoice AED 500'') = js ''AED''"
    by blast
  from k b detectCurrency_first_match [of asciiHost "js ''Paid $5, or EUR 4''"]
  have "detectCurrency asciiHost (js ''Paid $5, or EUR 4'') =
      (if \<exists>(pattern, code)\<in>set (take 3 currencyMap).
            sublist (toUpperCase asciiHost pattern) (toUpperCase asciiHost (js ''Paid $5, or EUR 4''))
       then js ''AED'' else js ''USD'')"
    by blast
  with c have 2: "detectCurrency asciiHost (js ''Paid $5, or EUR 4'') = js ''USD''"
    by (simp only: if_False)
  from d detectCurrency_first_match [of asciiHost "js ''no marker 12''"]
  have 3: "detectCurrency asciiHost (js ''no marker 12'') = js ''AED''"
    by blast
  from 1 2 3 show ?thesis by blast
qed

subsection \<open>The revenue scorer\<close>

lemma slice_window:
  assumes "0 \<le> i" "i \<le> int (length s)"
  shows "slice s (max 0 (i - 100)) (min (int (length s)) (i + 100))
           = drop (nat i - 100) (take (nat i + 100) s)"
proof -
  define n where "n = nat i"
  with assms have i: "i = int n" and n: "n \<le> length s" by simp_all
  have k: "nat (max 0 (int n - 100)) = n - 100" "nat (int n - 100) = n - 100" by simp_all
  have "slice s (max 0 (int n - 100)) (min (int (length s)) (int n + 100))
      = take (nat (min (int (length s)) (int n + 100) - max 0 (int n - 100))) (drop (n - 100) s)"
    using n by (simp add: slice_def Let_def k min_def max_def)
  also have "\<dots> = take (n + 100 - (n - 100)) (drop (n - 100) s)"
  proof (cases "n + 100 \<le> length s")
    case True
    then have "nat (min (int (length s)) (int n + 100) - max 0 (int n - 100)) = n + 100 - (n - 100)"
      by arith
    then show ?thesis by (simp only:)
  next
    case False
    then have "nat (min (int (length s)) (int n + 100) - max 0 (int n - 100)) = length s - (n - 100)"
      by arith
    then have "take (nat (min (int (length s)) (int n + 100) - max 0 (int n - 100))) (drop (n - 100) s)
        = drop (n - 100) s"
      by (simp only: take_all length_drop order_refl)
    moreover from False have "length (drop (n - 100) s) \<le> n + 100 - (n - 100)"
      by simp
    then have "take (n + 100 - (n - 100)) (drop (n - 100) s) = drop (n - 100) s"
      by (rule take_all)
    ultimately show ?thesis by (simp only:)
  qed
  also have "\<dots> = drop (n - 100) (take (n + 100) s)"
    by (simp add: drop_take)
  finally show ?thesis by (simp add: i)
qed

lemma contextAt_window:
  "indexOf s p \<noteq> - 1 \<Longrightarrow>
     contextAt h s (indexOf s p)
       = toLowerCase h (drop (nat (indexOf s p) - 100) (take (nat (indexOf s p) + 100) s))"
  using indexOf_range [of s p] by (simp add: contextAt_def Let_def slice_window)

lemma indexOf_first:
  assumes "prefix p (drop i s)" "\<forall>j<i. \<not> prefix p (drop j s)"
  shows "indexOf s p = int i"
proof -
  have i: "i \<le> length s"
  proof (rule ccontr)
    assume "\<not> i \<le> length s"
    then have "length s < i" "drop (length s) s = drop i s" by simp_all
    with assms show False by metis
  qed
  have found: "indexOf s p \<noteq> - 1"
    using indexOf_least [of s p i] assms(1) i by blast
  with indexOf_range [of s p] have nonneg: "0 \<le> indexOf s p" by simp
  have "\<not> int i < indexOf s p"
    using indexOf_least [of s p i] assms(1) by blast
  moreover have "\<not> indexOf s p < int i"
  proof
    assume "indexOf s p < int i"
    with nonneg have "nat (indexOf s p) < i" by simp
    with assms(2) have "\<not> prefix p (drop (nat (indexOf s p)) s)" by blast
    with indexOf_found [OF found] show False by blast
  qed
  ultimately show ?thesis by simp
qed

lemma foldl_funpow:
  "foldl (\<lambda>confidence keyword. if P keyword then g confidence else confidence) c ks
     = (g ^^ length (filter P ks)) c"
  by (induction ks arbitrary: c) (simp_all add: funpow_swap1)

lemma boost_count:
  "boost context (rnd (3 / 10))
     = boosted (length (filter (\<lambda>k. sublist k context) revenueKeywords))"
  unfolding boost_def boosted_def by (simp only: foldl_funpow includesStr_sublist)

lemma scoreNumber_value: "num_value (scoreNumber h s num) = num"
  by (simp add: scoreNumber_def Let_def)

lemma scoreNumber_confidence:
  "num_confidence (scoreNumber h s num) =
     (if indexOf s (toLocaleString h num) = - 1 then capped 0
      else capped (length (filter
             (\<lambda>k. sublist k (contextAt h s (indexOf s (toLocaleString h num)))) revenueKeywords)))"
  by (simp add: scoreNumber_def Let_def boost_count capped_def) (simp add: boosted_def)

lemma boosted_Suc: "boosted (Suc k) = fadd (boosted k) (rnd (2 / 10))"
  by (simp add: boosted_def)

lemma boosted_0: "boosted 0 = Num (5404319552844595 / 18014398509481984)"
  by (simp add: boosted_def rnd_eval)

lemma increment:
  "rnd (2 / 10) = Num (3602879701896397 / 18014398509481984)"
  "rnd (1 / 5) = Num (3602879701896397 / 18014398509481984)"
  by (simp_all add: rnd_eval)

lemma boosted_1: "boosted 1 = Num (1 / 2)"
  unfolding One_nat_def boosted_Suc boosted_0 increment by (simp add: rnd_eval)

lemma boosted_2: "boosted 2 = Num (3152519739159347 / 4503599627370496)"
proof -
  have "boosted (Suc 1) = Num (3152519739159347 / 4503599627370496)"
    unfolding boosted_Suc boosted_1 increment by (simp add: rnd_eval)
  then show ?thesis by (simp add: numeral_2_eq_2)
qed

lemma boosted_3: "boosted 3 = Num (2026619832316723 / 2251799813685248)"
proof -
  have "boosted (Suc 2) = Num (2026619832316723 / 2251799813685248)"
    unfolding boosted_Suc boosted_2 increment by (simp add: rnd_eval)
  then show ?thesis by (simp add: eval_nat_numeral)
qed

lemma boosted_4: "boosted 4 = Num (4953959590107545 / 4503599627370496)"
proof -
  have "boosted (Suc 3) = Num (4953959590107545 / 4503599627370496)"
    unfolding boosted_Suc boosted_3 increment by (simp add: rnd_eval)
  then show ?thesis by (simp add: eval_nat_numeral)
qed

text \<open>A number that is at least 1 is rounded to a double that is at least 1.\<close>

lemma rnd_ge_one:
  assumes "1 \<le> z"
  shows "jsLessEq (Num 1) (rnd z)"
proof -
  define e where "e = exponent z"
  have e: "0 \<le> e" "2 powi e \<le> z"
    using expUp_spec [of 0 z] assms by (simp_all add: e_def exponent_def)
  define u :: rat where "u = 2 powi (e - 52)"
  define k :: int where "k = 2 ^ 52"
  define n where "n = roundHalfEven (z / u)"
  define y where "y = of_int n * u"
  have u: "0 < u" unfolding u_def by (rule pow2_pos)
  have "(2::rat) powi 52 = of_int k"
    unfolding k_def by (simp only: power_int_numeral of_int_power of_int_numeral)
  moreover have "(2::rat) powi e = 2 powi (52 + (e - 52))"
    by (rule arg_cong [where f = "\<lambda>k. 2 powi k"]) simp
  then have "(2::rat) powi e = 2 powi 52 * 2 powi (e - 52)"
    by (simp only: pow2_split)
  ultimately have split: "2 powi e = of_int k * u"
    unfolding u_def by (simp only:)
  from e(2) u have "of_int k \<le> z / u"
    unfolding split by (simp add: le_divide_eq)
  moreover have "\<bar>of_int n - z / u\<bar> \<le> 1 / 2"
    unfolding n_def by (rule roundHalfEven_near)
  ultimately have "(of_int k :: rat) - 1 / 2 \<le> of_int n" by linarith
  then have "(of_int (k - 1) :: rat) < of_int n" by simp
  then have "k - 1 < n" by (simp only: of_int_less_iff)
  then have "k \<le> n" by simp
  then have "(of_int k :: rat) \<le> of_int n" by (simp only: of_int_le_iff)
  with u have "of_int k * u \<le> y"
    unfolding y_def by (intro mult_right_mono) simp_all
  then have "2 powi e \<le> y" by (simp only: split)
  moreover have "(2::rat) powi 0 \<le> 2 powi e" using e(1) by (rule pow2_mono)
  ultimately have y: "1 \<le> y" by simp
  have M: "(0::rat) < 2 powi 1024" by (rule pow2_pos)
  from assms have "z \<noteq> 0" "\<bar>z\<bar> = z" by simp_all
  then have "rnd z = (if 2 powi 1024 \<le> y then Infinity
      else if y \<le> - (2 powi 1024) then NegInfinity else Num y)"
    using rnd_unfold [of z] unfolding y_def n_def u_def e_def by simp
  moreover from y M have "\<not> y \<le> - (2 powi 1024)" by linarith
  ultimately show ?thesis using y by (auto simp: jsLessEq_def simp del: power_int_numeral)
qed

lemma fadd_increment_comparable:
  "comparable a \<Longrightarrow> comparable (fadd a (rnd (2 / 10)))"
  unfolding increment by (cases a) simp_all

lemma fadd_increment_ge1:
  assumes "jsLessEq (Num 1) a"
  shows "jsLessEq (Num 1) (fadd a (rnd (2 / 10)))"
proof (cases a)
  case (Num x)
  with assms have "1 \<le> x" by (auto simp: jsLessEq_def)
  then have "1 \<le> x + 3602879701896397 / 18014398509481984" by simp
  then have "jsLessEq (Num 1) (rnd (x + 3602879701896397 / 18014398509481984))"
    by (rule rnd_ge_one)
  then show ?thesis unfolding increment Num by simp
qed (use assms in \<open>simp_all add: increment jsLessEq_def\<close>)

lemma comparable_boosted: "comparable (boosted k)"
proof (induction k)
  case 0
  show ?case by (simp add: boosted_def)
next
  case (Suc k)
  then show ?case unfolding boosted_Suc by (rule fadd_increment_comparable)
qed

lemma boosted_ge1: "4 \<le> k \<Longrightarrow> jsLessEq (Num 1) (boosted k)"
proof (induction k)
  case 0
  then show ?case by simp
next
  case (Suc k)
  show ?case
  proof (cases "k = 3")
    case True
    have "boosted (Suc 3) = boosted 4" by (simp add: eval_nat_numeral)
    then show ?thesis unfolding True boosted_4 by (simp add: jsLessEq_def)
  next
    case False
    with Suc.prems have "4 \<le> k" by simp
    then have "jsLessEq (Num 1) (boosted k)" by (rule Suc.IH)
    then show ?thesis unfolding boosted_Suc by (rule fadd_increment_ge1)
  qed
qed

lemma Math_min_one:
  "comparable a \<Longrightarrow> jsLessEq (Math_min a (Num 1)) (Num 1) \<and> comparable (Math_min a (Num 1))"
  "jsLessEq (Num 1) a \<Longrightarrow> Math_min a (Num 1) = Num 1"
proof -
  have one: "onGrid 1"
  proof (rule rnd_onGrid)
    show "rnd 1 = Num 1" by (simp add: rnd_eval)
  qed
  show "jsLessEq (Math_min a (Num 1)) (Num 1) \<and> comparable (Math_min a (Num 1))"
    if "comparable a"
    using that one by (cases a) (auto simp: Math_min_def jsLessEq_def)
  show "Math_min a (Num 1) = Num 1" if "jsLessEq (Num 1) a"
    using that by (cases a) (auto simp: Math_min_def jsLessEq_def)
qed

lemma capped_table:
  "capped 0 = Num (5404319552844595 / 18014398509481984)"
  "capped 1 = Num (1 / 2)"
  "capped 2 = Num (3152519739159347 / 4503599627370496)"
  "capped 3 = Num (2026619832316723 / 2251799813685248)"
  "4 \<le> k \<Longrightarrow> capped k = Num 1"
proof -
  show "capped 0 = Num (5404319552844595 / 18014398509481984)"
    unfolding capped_def boosted_0 by (simp add: Math_min_def)
  show "capped 1 = Num (1 / 2)"
    unfolding capped_def boosted_1 by (simp add: Math_min_def)
  show "capped 2 = Num (3152519739159347 / 4503599627370496)"
    unfolding capped_def boosted_2 by (simp add: Math_min_def)
  show "capped 3 = Num (2026619832316723 / 2251799813685248)"
    unfolding capped_def boosted_3 by (simp add: Math_min_def)
  show "capped k = Num 1" if "4 \<le> k"
    unfolding capped_def using that by (intro Math_min_one(2) boosted_ge1)
qed

lemma capped_bounds: "jsLessEq (capped k) (Num 1)" "comparable (capped k)"
  unfolding capped_def using Math_min_one(1) [OF comparable_boosted] by blast+


lemma scoreNumber_bounds:
  "jsLessEq (num_confidence (scoreNumber h s num)) (Num 1)"
  "comparable (num_confidence (scoreNumber h s num))"
  unfolding scoreNumber_confidence by (simp_all add: capped_bounds)

lemma not_jsLess_iff: "comparable a \<Longrightarrow> comparable b \<Longrightarrow> \<not> jsLess a b \<longleftrightarrow> jsLessEq b a"
  by (cases a; cases b) (auto simp: jsLessEq_def)

lemma findRevenueNumbers_sorted:
  "mset (findRevenueNumbers h s numbers) = mset (map (scoreNumber h s) numbers)"
  "sorted_wrt (\<lambda>a b. jsLessEq (num_confidence b) (num_confidence a)) (findRevenueNumbers h s numbers)"
  "filter (\<lambda>a. num_confidence a = c) (findRevenueNumbers h s numbers)
     = filter (\<lambda>a. num_confidence a = c) (map (scoreNumber h s) numbers)"
proof -
  let ?xs = "map (scoreNumber h s) numbers"
  have comp: "\<forall>x\<in>set ?xs. comparable (num_confidence x)"
    by (auto simp: scoreNumber_bounds)
  note props = sortWith_props [OF comp, folded findRevenueNumbers_def]
  show perm: "mset (findRevenueNumbers h s numbers) = mset ?xs" by (rule props(1))
  then have "set (findRevenueNumbers h s numbers) = set ?xs" by (rule mset_eq_setD)
  with comp have out: "\<forall>x\<in>set (findRevenueNumbers h s numbers). comparable (num_confidence x)"
    by simp
  from props(2)
  show "sorted_wrt (\<lambda>a b. jsLessEq (num_confidence b) (num_confidence a))
      (findRevenueNumbers h s numbers)"
    by (rule sorted_wrt_mono_rel [rotated]) (use out in \<open>simp add: not_jsLess_iff\<close>)
  show "filter (\<lambda>a. num_confidence a = c) (findRevenueNumbers h s numbers)
     = filter (\<lambda>a. num_confidence a = c) ?xs"
    by (rule props(3))
qed


lemma literals:
  "rnd (3 / 10) = Num (5404319552844595 / 18014398509481984)"
  "rnd (7 / 10) = Num (3152519739159347 / 4503599627370496)"
  "rnd (9 / 10) = Num (8106479329266893 / 9007199254740992)"
  by (simp_all add: rnd_eval)

lemma enUS_examples:
  "enUS (Num 950) = js ''950''" "enUS (Num 1234) = js ''1,234''" "enUS (Num (25 / 2)) = js ''12.5''"
  "enUS (Num (2714843082853345 / 2199023255552)) = js ''1,234.568''"
  "enUS (Num 12450) = js ''12,450''" "enUS (Num 10200) = js ''10,200''"
  by (simp_all add: enUS_def Let_def js_def floor_rat_numeral)

lemma sublist_first:
  assumes "sublist p s"
  shows "prefix p (drop (nat (indexOf s p)) s)"
    and "\<forall>j<nat (indexOf s p). \<not> prefix p (drop j s)"
    and "indexOf s p \<noteq> - 1"
proof -
  from assms show found: "indexOf s p \<noteq> - 1"
    by (simp add: includesStr_def flip: includesStr_sublist)
  with indexOf_range [of s p] have nonneg: "0 \<le> indexOf s p" by simp
  show "prefix p (drop (nat (indexOf s p)) s)"
    using found by (rule indexOf_found)
  show "\<forall>j<nat (indexOf s p). \<not> prefix p (drop j s)"
    using nonneg indexOf_least [of s p] by simp
qed

lemma scoreNumber_absent:
  "\<not> sublist (toLocaleString h num) s \<Longrightarrow> num_confidence (scoreNumber h s num) = capped 0"
  by (simp add: scoreNumber_confidence flip: includesStr_sublist) (simp add: includesStr_def)

lemma scoreNumber_at:
  assumes "prefix (toLocaleString h num) (drop i s)"
    and "\<forall>j<i. \<not> prefix (toLocaleString h num) (drop j s)"
  shows "num_confidence (scoreNumber h s num)
    = capped (length (filter (\<lambda>k. sublist k (toLowerCase h (drop (i - 100) (take (i + 100) s))))
                revenueKeywords))"
proof -
  have i: "indexOf s (toLocaleString h num) = int i"
    using assms by (rule indexOf_first)
  then have found: "indexOf s (toLocaleString h num) \<noteq> - 1" by simp
  have "contextAt h s (indexOf s (toLocaleString h num))
      = toLowerCase h (drop (i - 100) (take (i + 100) s))"
    using contextAt_window [OF found, of h] by (simp add: i)
  with found show ?thesis
    by (simp only: scoreNumber_confidence if_False)
qed

text \<open>
  C5: the scorer gives every number the confidence 0.3 when its formatted string does not
  occur in the text. When it occurs, the context is the text from 100 characters before the
  start of the first occurrence to 100 characters after that start, in lower case: the
  occurrence itself counts in the 100 characters that follow. The confidence is 0.3 to which
  the double 0.2 is added once for each of the ten keywords that occurs in the context, and 1
  when that is more than 1: 0.3, 0.5, 0.7 and 0.8999999999999999 for no, one, two and three
  keywords, and 1 from four keywords on. The result holds the scored numbers sorted by
  descending confidence, numbers of equal confidence in the order of the input.
\<close>

theorem findRevenueNumbers_scoring:
  "num_value (scoreNumber h s num) = num
   \<and> (\<not> sublist (toLocaleString h num) s \<longrightarrow> num_confidence (scoreNumber h s num) = rnd (3 / 10))
   \<and> (sublist (toLocaleString h num) s \<longrightarrow>
        (let i = nat (indexOf s (toLocaleString h num));
             context = toLowerCase h (drop (i - 100) (take (i + 100) s));
             k = length (filter (\<lambda>keyword. sublist keyword context) revenueKeywords)
         in prefix (toLocaleString h num) (drop i s)
            \<and> (\<forall>j<i. \<not> prefix (toLocaleString h num) (drop j s))
            \<and> num_confidence (scoreNumber h s num)
                = Math_min (((\<lambda>confidence. fadd confidence (rnd (2 / 10))) ^^ k) (rnd (3 / 10)))
                    (Num 1)
            \<and> num_confidence (scoreNumber h s num) = capped k))
   \<and> capped 0 = rnd (3 / 10) \<and> capped 1 = Num (1 / 2) \<and> capped 2 = rnd (7 / 10)
   \<and> capped 3 = Num (2026619832316723 / 2251799813685248) \<and> capped 3 \<noteq> rnd (9 / 10)
   \<and> (\<forall>k\<ge>4. capped k = Num 1)
   \<and> length revenueKeywords = 10 \<and> distinct revenueKeywords
   \<and> mset (findRevenueNumbers h s numbers) = mset (map (scoreNumber h s) numbers)
   \<and> sorted_wrt (\<lambda>a b. jsLessEq (num_confidence b) (num_confidence a))
        (findRevenueNumbers h s numbers)
   \<and> (\<forall>c. filter (\<lambda>a. num_confidence a = c) (findRevenueNumbers h s numbers)
            = filter (\<lambda>a. num_confidence a = c) (map (scoreNumber h s) numbers))"
proof -
  let ?p = "toLocaleString h num"
  have val: "num_value (scoreNumber h s num) = num"
    by (rule scoreNumber_value)
  have table: "capped 0 = rnd (3 / 10)" "capped 1 = Num (1 / 2)" "capped 2 = rnd (7 / 10)"
    "capped 3 = Num (2026619832316723 / 2251799813685248)" "capped 3 \<noteq> rnd (9 / 10)"
    unfolding literals capped_table by simp_all
  have top: "\<forall>k\<ge>4. capped k = Num 1"
    using capped_table(5) by blast
  have absent: "num_confidence (scoreNumber h s num) = rnd (3 / 10)" if "\<not> sublist ?p s"
    using that unfolding table(1) [symmetric] by (rule scoreNumber_absent)
  have present: "(let i = nat (indexOf s ?p);
             context = toLowerCase h (drop (i - 100) (take (i + 100) s));
             k = length (filter (\<lambda>keyword. sublist keyword context) revenueKeywords)
         in prefix ?p (drop i s)
            \<and> (\<forall>j<i. \<not> prefix ?p (drop j s))
            \<and> num_confidence (scoreNumber h s num)
                = Math_min (((\<lambda>confidence. fadd confidence (rnd (2 / 10))) ^^ k) (rnd (3 / 10)))
                    (Num 1)
            \<and> num_confidence (scoreNumber h s num) = capped k)"
    if "sublist ?p s"
  proof -
    note first = sublist_first(1,2) [OF that]
    have "num_confidence (scoreNumber h s num)
      = capped (length (filter (\<lambda>k. sublist k (toLowerCase h (drop (nat (indexOf s ?p) - 100)
                  (take (nat (indexOf s ?p) + 100) s)))) revenueKeywords))"
      using first by (rule scoreNumber_at)
    with first show ?thesis
      unfolding Let_def capped_def boosted_def by blast
  qed
  have kw: "length revenueKeywords = 10" "distinct revenueKeywords"
    by (simp_all add: revenueKeywords_def js_def)
  note sorting = findRevenueNumbers_sorted [where h = h and s = s and numbers = numbers]
  have stable: "\<forall>c. filter (\<lambda>a. num_confidence a = c) (findRevenueNumbers h s numbers)
            = filter (\<lambda>a. num_confidence a = c) (map (scoreNumber h s) numbers)"
    using sorting(3) by blast
  from val absent present table top kw sorting(1,2) stable show ?thesis by blast
qed

theorem findRevenueNumbers_scoring_witness:
  "sublist (toLocaleString asciiHost (Num 950)) (js ''Paid 1,234.5677 revenue 950'')
   \<and> \<not> sublist (toLocaleString asciiHost (Num (2714843082853345 / 2199023255552)))
         (js ''Paid 1,234.5677 revenue 950'')
   \<and> num_confidence (scoreNumber asciiHost (js ''Paid 1,234.5677 revenue 950'') (Num 950))
       = Num (1 / 2)
   \<and> num_confidence (scoreNumber asciiHost (js ''Paid 1,234.5677 revenue 950'')
         (Num (2714843082853345 / 2199023255552))) = Num (5404319552844595 / 18014398509481984)
   \<and> findRevenueNumbers asciiHost (js ''Paid 1,234.5677 revenue 950'')
         [Num (2714843082853345 / 2199023255552), Num 950]
       = [\<lparr>num_value = Num 950, num_confidence = Num (1 / 2)\<rparr>,
          \<lparr>num_value = Num (2714843082853345 / 2199023255552),
           num_confidence = Num (5404319552844595 / 18014398509481984)\<rparr>]"
proof -
  let ?T = "js ''Paid 1,234.5677 revenue 950''"
  let ?big = "Num (2714843082853345 / 2199023255552)"
  have fmt: "toLocaleString asciiHost (Num 950) = js ''950''"
    "toLocaleString asciiHost ?big = js ''1,234.568''"
    by (simp_all add: asciiHost_def enUS_examples)
  have "includesStr ?T (js ''950'')" and "\<not> includesStr ?T (js ''1,234.568'')"
    by code_simp+
  then have occ: "sublist (js ''950'') ?T" "\<not> sublist (js ''1,234.568'') ?T"
    by (simp_all add: includesStr_sublist)
  have i: "nat (indexOf ?T (js ''950'')) = 24"
    by code_simp
  have c: "toLowerCase asciiHost (drop (24 - 100) (take (24 + 100) ?T))
      = js ''paid 1,234.5677 revenue 950''"
    by code_simp
  have "filter (includesStr (js ''paid 1,234.5677 revenue 950'')) revenueKeywords = [js ''revenue'']"
    by code_simp
  then have hits: "filter (\<lambda>k. sublist k (js ''paid 1,234.5677 revenue 950'')) revenueKeywords
      = [js ''revenue'']"
    by (simp add: includesStr_sublist [abs_def])
  from findRevenueNumbers_scoring [of asciiHost ?T "Num 950", unfolded fmt Let_def i] occ(1)
  have "num_confidence (scoreNumber asciiHost ?T (Num 950)) =
      capped (length (filter
        (\<lambda>k. sublist k (toLowerCase asciiHost (drop (24 - 100) (take (24 + 100) ?T))))
        revenueKeywords))"
    by blast
  then have "num_confidence (scoreNumber asciiHost ?T (Num 950)) = capped 1"
    by (simp only: c hits) simp
  moreover from findRevenueNumbers_scoring [of asciiHost ?T "Num 950"]
  have "capped 1 = Num (1 / 2)" by blast
  ultimately have c950: "num_confidence (scoreNumber asciiHost ?T (Num 950)) = Num (1 / 2)"
    by (simp only:)
  from findRevenueNumbers_scoring [of asciiHost ?T ?big] occ(2)
  have "num_confidence (scoreNumber asciiHost ?T ?big) = rnd (3 / 10)"
    unfolding fmt by blast
  then have cbig: "num_confidence (scoreNumber asciiHost ?T ?big)
      = Num (5404319552844595 / 18014398509481984)"
    by (simp only: literals)
  have v: "num_value (scoreNumber asciiHost ?T x) = x" for x
    using findRevenueNumbers_scoring [of asciiHost ?T x] by blast
  have s950: "scoreNumber asciiHost ?T (Num 950)
      = \<lparr>num_value = Num 950, num_confidence = Num (1 / 2)\<rparr>"
    using v [of "Num 950"] c950 by (cases "scoreNumber asciiHost ?T (Num 950)") simp
  have sbig: "scoreNumber asciiHost ?T ?big
      = \<lparr>num_value = ?big, num_confidence = Num (5404319552844595 / 18014398509481984)\<rparr>"
    using v [of ?big] cbig by (cases "scoreNumber asciiHost ?T ?big") simp
  have "fsub (Num (1 / 2)) (Num (5404319552844595 / 18014398509481984))
      = Num (3602879701896397 / 18014398509481984)"
    by (simp add: fsub_def rnd_eval)
  then have "findRevenueNumbers asciiHost ?T [?big, Num 950]
       = [\<lparr>num_value = Num 950, num_confidence = Num (1 / 2)\<rparr>,
          \<lparr>num_value = ?big, num_confidence = Num (5404319552844595 / 18014398509481984)\<rparr>]"
    by (simp add: findRevenueNumbers_def s950 sbig)
  with occ c950 cbig show ?thesis by (simp only: fmt) simp
qed

text \<open>
  The keyword \<open>net\<close> stands within 100 characters after the end of the occurrence of \<open>12.5\<close>,
  and the confidence is the base confidence.
\<close>

theorem findRevenueNumbers_scoring_counterexample:
  "indexOf (js ''12.5'' @ replicate 94 46 @ js ''net'') (toLocaleString asciiHost (Num (25 / 2))) = 0
   \<and> length (toLocaleString asciiHost (Num (25 / 2))) = 4
   \<and> sublist (js ''net'') (take 100 (drop 4 (js ''12.5'' @ replicate 94 46 @ js ''net'')))
   \<and> num_confidence (scoreNumber asciiHost (js ''12.5'' @ replicate 94 46 @ js ''net'') (Num (25 / 2)))
       = rnd (3 / 10)"
proof -
  let ?T = "js ''12.5'' @ replicate 94 46 @ js ''net''"
  have fmt: "toLocaleString asciiHost (Num (25 / 2)) = js ''12.5''"
    by (simp add: asciiHost_def enUS_examples)
  have i: "indexOf ?T (js ''12.5'') = 0" by code_simp
  have "includesStr (take 100 (drop 4 ?T)) (js ''net'')" by code_simp
  then have near: "sublist (js ''net'') (take 100 (drop 4 ?T))"
    by (simp only: includesStr_sublist)
  have "filter (includesStr (contextAt asciiHost ?T 0)) revenueKeywords = []"
    by code_simp
  then have "boost (contextAt asciiHost ?T 0) (rnd (3 / 10)) = rnd (3 / 10)"
    by (simp add: boost_def foldl_funpow)
  then have "num_confidence (scoreNumber asciiHost ?T (Num (25 / 2))) = Math_min (rnd (3 / 10)) (Num 1)"
    by (simp add: scoreNumber_def Let_def fmt i)
  also have "\<dots> = rnd (3 / 10)"
    unfolding literals by (simp add: Math_min_def)
  finally show ?thesis using i near by (simp add: fmt js_def)
qed




subsection \<open>The breakdown estimator\<close>

lemma positiveDouble_simps:
  "positiveDouble n \<Longrightarrow> comparable n"
  "positiveDouble n \<Longrightarrow> n \<noteq> Num 0"
  "positiveDouble n \<Longrightarrow> \<not> isNaN n"
  by (cases n; simp add: positiveDouble_def)+

lemma sortWith_descending:
  assumes "\<forall>n\<in>set numbers. comparable n"
  shows "sortWith (\<lambda>a b. fsub b a) numbers = sort_key descending numbers"
  using sortWith_sort_key [of numbers "\<lambda>n. n"] assms by simp

lemma sort_key_descending:
  assumes "\<forall>n\<in>set numbers. comparable n"
  shows "sorted_wrt (\<lambda>a b. jsLessEq b a) (sort_key descending numbers)"
proof -
  have "sorted_wrt (\<lambda>a b. \<not> jsLess a b) (sortWith (\<lambda>a b. fsub b a) numbers)"
    using sortWith_props(2) [of numbers "\<lambda>n. n"] assms by simp
  then have "sorted_wrt (\<lambda>a b. \<not> jsLess a b) (sort_key descending numbers)"
    by (simp only: sortWith_descending [OF assms])
  then show ?thesis
    by (rule sorted_wrt_mono_rel [rotated]) (use assms in \<open>simp add: not_jsLess_iff\<close>)
qed

lemma estimateBreakdown_many:
  assumes len: "2 \<le> length numbers" and pos: "\<forall>n\<in>set numbers. positiveDouble n"
  shows "estimateBreakdown numbers =
     (let sorted = sort_key descending numbers;
          current = sorted ! 1;
          previous = (if 3 \<le> length numbers then sorted ! 2 else fmul current (rnd (85 / 100)))
      in \<lparr>thisMonth = Math_round current,
          lastMonth = Math_round previous,
          growth = Math_round (if previous = Num 0 then Num 0
                               else fmul (fdiv (fsub current previous) previous) (Num 100))\<rparr>)"
proof -
  from pos have comp: "\<forall>n\<in>set numbers. comparable n"
    by (simp add: positiveDouble_simps)
  note s = sortWith_descending [OF comp]
  from len have ne: "length numbers \<noteq> 0" "length numbers \<noteq> 1"
    by (simp_all del: length_0_conv)
  have eb: "estimateBreakdown numbers =
        (let sortedNumbers = sort_key descending numbers;
             thisMonth = sortedNumbers ! 1;
             lastMonth = (if 2 < length sortedNumbers \<and> sortedNumbers ! 2 \<noteq> Num 0
                             \<and> \<not> isNaN (sortedNumbers ! 2)
                          then sortedNumbers ! 2 else fmul thisMonth (rnd (85 / 100)))
         in \<lparr>thisMonth = Math_round thisMonth,
             lastMonth = Math_round lastMonth,
             growth = Math_round (calculateGrowth thisMonth lastMonth)\<rparr>)"
    unfolding estimateBreakdown_def s by (simp only: ne if_False)
  show ?thesis
  proof (cases "3 \<le> length numbers")
    case True
    then have "sort_key descending numbers ! 2 \<in> set (sort_key descending numbers)"
      by (intro nth_mem) simp
    then have "sort_key descending numbers ! 2 \<in> set numbers" by simp
    with pos have "positiveDouble (sort_key descending numbers ! 2)" by blast
    then have third: "sort_key descending numbers ! 2 \<noteq> Num 0"
        "\<not> isNaN (sort_key descending numbers ! 2)"
      by (rule positiveDouble_simps)+
    from True have "2 < length numbers" by simp
    with third True show ?thesis
      by (simp only: eb Let_def calculateGrowth_def length_sort simp_thms if_True)
  next
    case False
    then have "\<not> 2 < length numbers" by simp
    with False show ?thesis
      by (simp only: eb Let_def calculateGrowth_def length_sort simp_thms if_False)
  qed
qed

lemma constants:
  "rnd (8 / 10) = Num (3602879701896397 / 4503599627370496)"
  "rnd (4 / 5) = Num (3602879701896397 / 4503599627370496)"
  "rnd (85 / 100) = Num (7656119366529843 / 9007199254740992)"
  "rnd (17 / 20) = Num (7656119366529843 / 9007199254740992)"
  by (simp_all add: rnd_eval)

lemma estimateBreakdown_examples:
  "estimateBreakdown [Num 100, Num 50, Num 10]
     = \<lparr>thisMonth = Num 50, lastMonth = Num 10, growth = Num 400\<rparr>"
  "estimateBreakdown [Num 1200] = \<lparr>thisMonth = Num 100, lastMonth = Num 80, growth = Num 20\<rparr>"
  "estimateBreakdown [Num 1063, Num 63, Num 40]
     = \<lparr>thisMonth = Num 63, lastMonth = Num 40, growth = Num 57\<rparr>"
proof -
  show "estimateBreakdown [Num 100, Num 50, Num 10]
     = \<lparr>thisMonth = Num 50, lastMonth = Num 10, growth = Num 400\<rparr>"
    by (simp add: estimateBreakdown_def Let_def calculateGrowth_def fsub_def rnd_eval)
  show "estimateBreakdown [Num 1200] = \<lparr>thisMonth = Num 100, lastMonth = Num 80, growth = Num 20\<rparr>"
    by (simp add: estimateBreakdown_def Let_def rnd_eval)
  show "estimateBreakdown [Num 1063, Num 63, Num 40]
     = \<lparr>thisMonth = Num 63, lastMonth = Num 40, growth = Num 57\<rparr>"
    by (simp add: estimateBreakdown_def Let_def calculateGrowth_def fsub_def rnd_eval)
qed

text \<open>
  C3: the breakdown estimator returns zeros on the empty list; on \<open>[t]\<close> it returns
  \<open>round (t / 12)\<close>, \<open>round ((t / 12) * 0.8)\<close> and the growth 20; on two or more detected
  numbers, sorted in descending order, the current period is the second largest, the previous
  period is the third largest, or the second largest times 0.85 when there is no third, both
  rounded, and the growth is \<open>round (((current - previous) / previous) * 100)\<close>, or 0 when the
  previous period is 0. Every operation is that of the doubles, which rounds its result:
  \<open>[100, 50, 10]\<close> gives \<open>(50, 10, 400)\<close> and \<open>[1200]\<close> gives \<open>(100, 80, 20)\<close>, and
  \<open>[1063, 63, 40]\<close> gives the growth 57, where \<open>((63 - 40) / 40) * 100\<close> is 57.5 and rounds
  to 58.
\<close>

theorem estimateBreakdown_cases:
  "estimateBreakdown [] = \<lparr>thisMonth = Num 0, lastMonth = Num 0, growth = Num 0\<rparr>
   \<and> estimateBreakdown [t] =
       \<lparr>thisMonth = Math_round (fdiv t (Num 12)),
        lastMonth = Math_round (fmul (fdiv t (Num 12)) (rnd (8 / 10))),
        growth = Num 20\<rparr>
   \<and> (2 \<le> length numbers \<and> (\<forall>n\<in>set numbers. positiveDouble n) \<longrightarrow>
        (let sorted = sort_key descending numbers;
             current = sorted ! 1;
             previous = (if 3 \<le> length numbers then sorted ! 2 else fmul current (rnd (85 / 100)))
         in mset sorted = mset numbers
            \<and> sorted_wrt (\<lambda>a b. jsLessEq b a) sorted
            \<and> estimateBreakdown numbers =
                \<lparr>thisMonth = Math_round current,
                 lastMonth = Math_round previous,
                 growth = Math_round (if previous = Num 0 then Num 0
                            else fmul (fdiv (fsub current previous) previous) (Num 100))\<rparr>))
   \<and> estimateBreakdown [Num 100, Num 50, Num 10]
       = \<lparr>thisMonth = Num 50, lastMonth = Num 10, growth = Num 400\<rparr>
   \<and> estimateBreakdown [Num 1200] = \<lparr>thisMonth = Num 100, lastMonth = Num 80, growth = Num 20\<rparr>"
proof -
  have empty: "estimateBreakdown [] = \<lparr>thisMonth = Num 0, lastMonth = Num 0, growth = Num 0\<rparr>"
    by (simp add: estimateBreakdown_def)
  have one: "estimateBreakdown [t] =
       \<lparr>thisMonth = Math_round (fdiv t (Num 12)),
        lastMonth = Math_round (fmul (fdiv t (Num 12)) (rnd (8 / 10))),
        growth = Num 20\<rparr>"
    unfolding estimateBreakdown_def Let_def by simp
  have many: "(let sorted = sort_key descending numbers;
             current = sorted ! 1;
             previous = (if 3 \<le> length numbers then sorted ! 2 else fmul current (rnd (85 / 100)))
         in mset sorted = mset numbers
            \<and> sorted_wrt (\<lambda>a b. jsLessEq b a) sorted
            \<and> estimateBreakdown numbers =
                \<lparr>thisMonth = Math_round current,
                 lastMonth = Math_round previous,
                 growth = Math_round (if previous = Num 0 then Num 0
                            else fmul (fdiv (fsub current previous) previous) (Num 100))\<rparr>)"
    if len: "2 \<le> length numbers" and pos: "\<forall>n\<in>set numbers. positiveDouble n"
  proof -
    from pos have "\<forall>n\<in>set numbers. comparable n"
      by (simp add: positiveDouble_simps)
    then have "sorted_wrt (\<lambda>a b. jsLessEq b a) (sort_key descending numbers)"
      by (rule sort_key_descending)
    moreover have "mset (sort_key descending numbers) = mset numbers"
      by simp
    moreover note estimateBreakdown_many [OF len pos]
    ultimately show ?thesis by (simp only: Let_def)
  qed
  from empty one many estimateBreakdown_examples(1,2) show ?thesis by blast
qed

theorem estimateBreakdown_cases_witness:
  "positiveDouble (Num 10) \<and> positiveDouble (Num 100) \<and> positiveDouble (Num 50)
   \<and> sort_key descending [Num 10, Num 100, Num 50] = [Num 100, Num 50, Num 10]
   \<and> estimateBreakdown [Num 10, Num 100, Num 50]
       = \<lparr>thisMonth = Num 50, lastMonth = Num 10, growth = Num 400\<rparr>"
proof -
  have "rnd 10 = Num 10" "rnd 100 = Num 100" "rnd 50 = Num 50"
    by (simp_all add: rnd_eval)
  then have "onGrid 10" "onGrid 100" "onGrid 50"
    by (simp_all only: rnd_onGrid)
  then have pos: "positiveDouble (Num 10)" "positiveDouble (Num 100)" "positiveDouble (Num 50)"
    by (simp_all add: positiveDouble_def)
  have s: "sort_key descending [Num 10, Num 100, Num 50] = [Num 100, Num 50, Num 10]"
    by (simp add: descending_def)
  from estimateBreakdown_cases [of "Num 0" "[Num 10, Num 100, Num 50]"] pos
  have "estimateBreakdown [Num 10, Num 100, Num 50]
       = \<lparr>thisMonth = Num 50, lastMonth = Num 10, growth = Num 400\<rparr>"
    by (simp add: descending_def Let_def fsub_def rnd_eval)
  with pos s show ?thesis by blast
qed

text \<open>The growth of \<open>[1063, 63, 40]\<close> is 57, and 57.5 rounds to 58.\<close>

theorem estimateBreakdown_counterexample:
  "growth (estimateBreakdown [Num 1063, Num 63, Num 40]) = Num 57
   \<and> Math_round (Num (((63 - 40) / 40) * 100)) = Num 58"
  by (simp add: estimateBreakdown_examples(3) floor_rat_numeral)

text \<open>Rounding changes a number of the normal range by less than a millionth of it.\<close>

lemma rnd_approx:
  assumes "2 powi (- 1022) \<le> x" "x < 2 powi 1023"
  shows "\<exists>y. rnd x = Num y \<and> 999999 * x \<le> 1000000 * y \<and> 1000000 * y \<le> 1000001 * x"
proof -
  have "(0::rat) < 2 powi (- 1022)" by (rule pow2_pos)
  with assms have pos: "0 < x" by linarith
  with assms have "2 powi (- 1022) \<le> \<bar>x\<bar>" "\<bar>x\<bar> < 2 powi 1023" by simp_all
  then obtain y where y: "rnd x = Num y" and rel: "\<bar>y - x\<bar> * 2 powi 53 \<le> \<bar>x\<bar>"
    using rnd_rel by blast
  define a where "a = \<bar>y - x\<bar>"
  have a: "0 \<le> a" "y - x \<le> a" "x - y \<le> a" by (simp_all add: a_def)
  have "(1000000::rat) \<le> 2 powi 53" by simp
  with a(1) have "a * 1000000 \<le> a * 2 powi 53"
    by (intro mult_left_mono)
  with rel pos have "a * 1000000 \<le> x" unfolding a_def by linarith
  with a have "999999 * x \<le> 1000000 * y" "1000000 * y \<le> 1000001 * x" by linarith+
  with y show ?thesis by blast
qed

lemma growth_of_synthesized:
  assumes lo: "2 powi (- 1019) \<le> x" and hi: "x < 2 powi 1023"
  shows "Math_round (calculateGrowth (Num x) (fmul (Num x) (rnd (85 / 100)))) = Num 18"
proof -
  define L :: rat where "L = 2 powi (- 1022)"
  define H :: rat where "H = 2 powi 1023"
  have L: "0 < L" unfolding L_def by (rule pow2_pos)
  have "(2::rat) powi (- 1019) = 2 powi (3 + - 1022)"
    by (rule arg_cong [where f = "\<lambda>k. 2 powi k"]) simp
  also have "\<dots> = 8 * L"
    unfolding L_def by (simp only: pow2_split) simp
  finally have x_lo: "8 * L \<le> x" using lo by simp
  from hi have x_hi: "x < H" by (simp add: H_def)
  have small: "8 * L \<le> 1"
  proof -
    have "(2::rat) powi (- 1022) \<le> 2 powi (- 3)" by (rule pow2_mono) simp
    then show ?thesis by (simp add: L_def power_int_minus)
  qed
  have big: "32 \<le> H"
  proof -
    have "(2::rat) powi 5 \<le> 2 powi 1023" by (rule pow2_mono) simp
    then show ?thesis by (simp add: H_def)
  qed
  define c :: rat where "c = 7656119366529843 / 9007199254740992"
  have prev: "fmul (Num x) (rnd (85 / 100)) = rnd (x * c)"
    unfolding constants c_def by simp
  from x_lo L have x: "0 < x" by linarith
  text \<open>the previous period\<close>
  define t where "t = x * c"
  have "84999 / 100000 \<le> c" "c \<le> 85001 / 100000" by (simp_all add: c_def)
  with x have "x * (84999 / 100000) \<le> x * c" "x * c \<le> x * (85001 / 100000)"
    by (simp_all only: mult_le_cancel_left_pos)
  then have t_lo: "84999 * x \<le> 100000 * t" and t_hi: "100000 * t \<le> 85001 * x"
    by (simp_all add: t_def)
  then have "L \<le> t" "t < H"
    using x_lo x_hi L by linarith+
  then obtain p where p: "rnd t = Num p"
      and "999999 * t \<le> 1000000 * p" "1000000 * p \<le> 1000001 * t"
    unfolding L_def H_def using rnd_approx by blast
  then have p_lo: "84998 * x \<le> 100000 * p" and p_hi: "100000 * p \<le> 85002 * x"
    using x t_lo t_hi by linarith+
  from p_lo x have p_pos: "0 < p" by linarith
  text \<open>the difference\<close>
  define z where "z = x - p"
  have z_lo: "14998 * x \<le> 100000 * z" and z_hi: "100000 * z \<le> 15002 * x"
    using p_lo p_hi by (simp_all add: z_def)
  then have "L \<le> z" "z < H"
    using x_lo x_hi L by linarith+
  then obtain d where d: "rnd z = Num d"
      and "999999 * z \<le> 1000000 * d" "1000000 * d \<le> 1000001 * z"
    unfolding L_def H_def using rnd_approx by blast
  then have d_lo: "14997 * x \<le> 100000 * d" and d_hi: "100000 * d \<le> 15003 * x"
    using z_lo z_hi x by linarith+
  text \<open>the quotient\<close>
  define r where "r = d / p"
  have "1764 * p \<le> 10000 * d" "10000 * d \<le> 1766 * p"
    using d_lo d_hi p_lo p_hi x by linarith+
  with p_pos have r_lo: "1764 \<le> 10000 * r" and r_hi: "10000 * r \<le> 1766"
    by (simp_all add: r_def field_simps)
  then have "L \<le> r" "r < H"
    using small big L by linarith+
  then obtain q where q: "rnd r = Num q"
      and "999999 * r \<le> 1000000 * q" "1000000 * q \<le> 1000001 * r"
    unfolding L_def H_def using rnd_approx by blast
  with r_lo r_hi have q_lo: "1763 \<le> 10000 * q" and q_hi: "10000 * q \<le> 1767"
    by linarith+
  text \<open>the growth\<close>
  define v where "v = q * 100"
  have v: "1763 \<le> 100 * v" "100 * v \<le> 1767"
    using q_lo q_hi by (simp_all add: v_def)
  then have "L \<le> v" "v < H"
    using small big L by linarith+
  then obtain g where g: "rnd v = Num g"
      and "999999 * v \<le> 1000000 * g" "1000000 * g \<le> 1000001 * v"
    unfolding L_def H_def using rnd_approx by blast
  with v have "176 / 10 \<le> g" "g \<le> 177 / 10"
    by linarith+
  then have "\<lfloor>g + 1 / 2\<rfloor> = 18"
    by (intro floor_unique) simp_all
  moreover have "calculateGrowth (Num x) (Num p) = Num g"
    using p_pos by (simp add: calculateGrowth_def fsub_def d q g flip: z_def r_def v_def)
  ultimately show ?thesis
    unfolding prev t_def [symmetric] p by simp
qed

lemma two_sorted:
  "sortWith cmp [a, b] ! 1 = (if jsLess (Num 0) (cmp a b) then a else b)"
  by simp

lemma smallest_double_growth:
  "growth (estimateBreakdown [Num (2 powi (- 1074)), Num (2 powi (- 1074))]) = Num 0"
proof -
  define t :: rat where "t = 2 powi (- 1074)"
  define c :: rat where "c = 7656119366529843 / 9007199254740992"
  have t: "0 < t" unfolding t_def by (rule pow2_pos)
  have c: "0 < c" "c < 1" by (simp_all add: c_def)
  have "t \<le> 2 powi (- 1022)" unfolding t_def by (rule pow2_mono) simp
  moreover from t c have "t * c < t" by simp
  moreover from t c have "\<bar>t * c\<bar> = t * c" by simp
  ultimately have "\<bar>t * c\<bar> < 2 powi (- 1022)" by linarith
  then have "exponent \<bar>t * c\<bar> = - 1022" by (rule exponent_subnormal)
  then have ulp: "(2::rat) powi (exponent \<bar>t * c\<bar> - 52) = t"
    by (simp add: t_def del: power_int_numeral)
  have one: "roundHalfEven c = 1"
    by (simp add: c_def roundHalfEven_def floor_rat_numeral)
  have "t \<le> 2 powi 1023" unfolding t_def by (rule pow2_mono) simp
  moreover have "(2::rat) powi 1024 = 2 * 2 powi 1023"
    using pow2_Suc [of 1023] by simp
  moreover have "(0::rat) < 2 powi 1023" by (rule pow2_pos)
  ultimately have range: "\<not> 2 powi 1024 \<le> t" "\<not> t \<le> - (2 powi 1024)"
    using t by linarith+
  from t c have "t * c \<noteq> 0" by simp
  from rnd_unfold [OF this] have prev: "rnd (t * c) = Num t"
    unfolding ulp using t one range by (simp del: power_int_numeral)
  have same: "fsub (Num t) (Num t) = Num 0"
    by (simp add: fsub_def rnd_def)
  have zero: "rnd 0 = Num 0" by (simp add: rnd_def)
  have "growth (estimateBreakdown [Num t, Num t]) = Num 0"
    unfolding estimateBreakdown_def Let_def calculateGrowth_def constants
    using t by (simp add: same prev zero floor_rat_numeral flip: c_def)
  then show ?thesis by (simp only: t_def)
qed

text \<open>
  C10: for every list of two doubles between \<open>2\<^sup>-\<^sup>1\<^sup>0\<^sup>1\<^sup>9\<close> and \<open>2\<^sup>1\<^sup>0\<^sup>2\<^sup>3\<close> the breakdown
  estimator returns the growth 18: the smaller number is the current period, the previous
  period is the double nearest to 0.85 times it, and the growth computed from them in double
  arithmetic lies between 17.6 and 17.7, which rounds to 18. It does not hold for every two
  positive numbers: the growth of twice the smallest positive double is 0, and that of twice
  \<open>Infinity\<close> is \<^verbatim>\<open>NaN\<close>.
\<close>

theorem two_numbers_growth:
  assumes "2 powi (- 1019) \<le> a" "a < 2 powi 1023" "2 powi (- 1019) \<le> b" "b < 2 powi 1023"
  shows "growth (estimateBreakdown [Num a, Num b]) = Num 18
         \<and> (onGrid a \<and> onGrid b \<longrightarrow>
               thisMonth (estimateBreakdown [Num a, Num b]) = Math_round (Num (min a b))
               \<and> lastMonth (estimateBreakdown [Num a, Num b])
                   = Math_round (fmul (Num (min a b)) (rnd (85 / 100))))"
proof -
  let ?cmp = "\<lambda>a b. fsub b a"
  have g: "Math_round (calculateGrowth m (fmul m (rnd (85 / 100)))) = Num 18"
    if "m = Num a \<or> m = Num b" for m
    using that assms growth_of_synthesized by blast
  have "sortWith ?cmp [Num a, Num b] ! 1 = Num a \<or> sortWith ?cmp [Num a, Num b] ! 1 = Num b"
    unfolding two_sorted by simp
  then have "Math_round (calculateGrowth (sortWith ?cmp [Num a, Num b] ! 1)
      (fmul (sortWith ?cmp [Num a, Num b] ! 1) (rnd (85 / 100)))) = Num 18"
    by (rule g)
  then have growth: "growth (estimateBreakdown [Num a, Num b]) = Num 18"
    unfolding estimateBreakdown_def Let_def by simp
  have smaller: "thisMonth (estimateBreakdown [Num a, Num b]) = Math_round (Num (min a b))
      \<and> lastMonth (estimateBreakdown [Num a, Num b])
          = Math_round (fmul (Num (min a b)) (rnd (85 / 100)))"
    if "onGrid a" "onGrid b"
  proof -
    from that have "\<forall>n\<in>set [Num a, Num b]. comparable n" by simp
    then have "sortWith ?cmp [Num a, Num b] = sort_key descending [Num a, Num b]"
      by (rule sortWith_descending)
    then have "sortWith ?cmp [Num a, Num b] ! 1 = Num (min a b)"
      by (simp add: descending_def min_def)
    then show ?thesis
      unfolding estimateBreakdown_def Let_def by simp
  qed
  from growth smaller show ?thesis by blast
qed

theorem two_numbers_growth_witness:
  "(2::rat) powi (- 1019) \<le> 12450 \<and> (12450::rat) < 2 powi 1023
   \<and> (2::rat) powi (- 1019) \<le> 10200 \<and> (10200::rat) < 2 powi 1023
   \<and> onGrid 12450 \<and> onGrid 10200
   \<and> growth (estimateBreakdown [Num 12450, Num 10200]) = Num 18
   \<and> thisMonth (estimateBreakdown [Num 12450, Num 10200]) = Num 10200"
proof -
  have range: "(2::rat) powi (- 1019) \<le> 12450" "(12450::rat) < 2 powi 1023"
    "(2::rat) powi (- 1019) \<le> 10200" "(10200::rat) < 2 powi 1023"
    by (simp_all add: power_int_minus)
  have "rnd 12450 = Num 12450" "rnd 10200 = Num 10200"
    by (simp_all add: rnd_eval)
  then have grid: "onGrid 12450" "onGrid 10200"
    by (simp_all only: rnd_onGrid)
  from two_numbers_growth [OF range] grid
  have "growth (estimateBreakdown [Num 12450, Num 10200]) = Num 18"
    "thisMonth (estimateBreakdown [Num 12450, Num 10200]) = Math_round (Num (min 12450 10200))"
    by blast+
  then have "growth (estimateBreakdown [Num 12450, Num 10200]) = Num 18"
    "thisMonth (estimateBreakdown [Num 12450, Num 10200]) = Num 10200"
    by (simp_all add: floor_rat_numeral)
  with range grid show ?thesis by blast
qed

text \<open>Twice the smallest positive double, and twice \<open>Infinity\<close>.\<close>

theorem two_numbers_growth_counterexample:
  "jsLess (Num 0) (Num (2 powi (- 1074)))
   \<and> growth (estimateBreakdown [Num (2 powi (- 1074)), Num (2 powi (- 1074))]) = Num 0
   \<and> growth (estimateBreakdown [Infinity, Infinity]) = NaN"
proof -
  have "jsLess (Num 0) (Num (2 powi (- 1074)))"
    by (simp del: power_int_numeral)
  moreover have "growth (estimateBreakdown [Infinity, Infinity]) = NaN"
    by (simp add: estimateBreakdown_def Let_def calculateGrowth_def fsub_def constants)
  ultimately show ?thesis
    using smallest_double_growth by blast
qed

end
